theory Spec2Isabelle
  imports Complex_Main "HOL-Library.AList"
begin

section \<open>Data model (types.ts)\<close>

text \<open>
  JavaScript strings are modelled as \<open>string\<close> (lists of 8-bit characters), so the
  model covers the Latin-1 part of the UTF-16 code units. Optional fields of an
  interface (\<open>hidden?\<close>, \<open>category?\<close>, \<open>isInitialEntity?\<close>, \<open>image?\<close>) are \<open>option\<close>s.
\<close>

record GraphEdge =
  edge_id :: string
  edge_from :: string
  edge_to :: string
  edge_label :: string
  edge_arrows :: string
  edge_hidden :: "bool option"
  edge_category :: "string option"

section \<open>Edge consolidation (utils/consolidateEdges.ts)\<close>

text \<open>\<open>interface ConsolidatedEdge extends GraphEdge { labels: string[]; count: number }\<close>\<close>

record ConsolidatedEdge = GraphEdge +
  labels :: "string list"
  count :: nat

text \<open>\<open>Array.prototype.join(sep)\<close> on an array of strings.\<close>

fun join :: "string \<Rightarrow> string list \<Rightarrow> string" where
  "join sep [] = []"
| "join sep [x] = x"
| "join sep (x # y # ys) = x @ sep @ join sep (y # ys)"

text \<open>The template literal \<open>`${edge.from}-${edge.to}`\<close>.\<close>

definition edge_key :: "GraphEdge \<Rightarrow> string" where
  "edge_key edge = edge_from edge @ ''-'' @ edge_to edge"

text \<open>
  The \<open>Map<string, ConsolidatedEdge>\<close> is an association list in insertion order:
  \<open>Map.get\<close> is \<open>map_of\<close>, and \<open>Map.set\<close> is \<open>AList.update\<close>, which appends a new key at
  the end and replaces the value of a known key where it stands. The in-place mutation
  of \<open>existing\<close> is the replacement of its entry.
\<close>

type_synonym edge_map = "(string \<times> ConsolidatedEdge) list"

definition consolidate_step :: "edge_map \<Rightarrow> GraphEdge \<Rightarrow> edge_map" where
  "consolidate_step edgeMap edge =
     (let key = edge_key edge in
      case map_of edgeMap key of
        Some existing \<Rightarrow>
          (let labels' = labels existing @ [edge_label edge] in
           AList.update key
             (existing\<lparr>labels := labels', count := count existing + 1,
                       edge_label := join '', '' labels'\<rparr>) edgeMap)
      | None \<Rightarrow>
          AList.update key
            \<lparr>edge_id = edge_id edge, edge_from = edge_from edge, edge_to = edge_to edge,
             edge_label = edge_label edge, edge_arrows = edge_arrows edge,
             edge_hidden = edge_hidden edge, edge_category = edge_category edge,
             labels = [edge_label edge], count = 1\<rparr> edgeMap)"

definition consolidateEdges :: "GraphEdge list \<Rightarrow> ConsolidatedEdge list" where
  "consolidateEdges edges = map snd (foldl consolidate_step [] edges)"


section \<open>Errors and strings\<close>

text \<open>
  A thrown JavaScript exception is a value: a function that can throw returns
  \<open>error + 'a\<close>, with \<open>Inl\<close> for the exception. \<open>Error msg\<close> is \<open>new Error(msg)\<close>;
  \<open>FetchRejected\<close> is a rejected \<open>fetch\<close> or \<open>response.json()\<close>; \<open>TypeError\<close> is a property
  read on \<open>undefined\<close>; \<open>QuotaExceeded\<close> is the exception of \<open>localStorage.setItem\<close> on a
  full store.
\<close>

datatype error = Error string | FetchRejected | TypeError | QuotaExceeded

text \<open>A number in a template literal: its decimal digits.\<close>

definition digit_char :: "nat \<Rightarrow> char" where
  "digit_char d = char_of (48 + d)"

fun decimal :: "nat \<Rightarrow> string" where
  "decimal n = (if n < 10 then [digit_char n] else decimal (n div 10) @ [digit_char (n mod 10)])"

text \<open>
  \<open>String.prototype.trim\<close> removes white space and line terminators at both ends; of
  the characters of the model these are tab, line feed, vertical tab, form feed,
  carriage return, space and no-break space.
\<close>

definition is_js_space :: "char \<Rightarrow> bool" where
  "is_js_space c =
     (c = CHR 0x09 \<or> c = CHR 0x0A \<or> c = CHR 0x0B \<or> c = CHR 0x0C \<or> c = CHR 0x0D \<or>
      c = CHR 0x20 \<or> c = CHR 0xA0)"

definition trim :: "string \<Rightarrow> string" where
  "trim s = rev (dropWhile is_js_space (rev (dropWhile is_js_space s)))"

text \<open>
  \<open>toUpperCase\<close> and \<open>toLowerCase\<close> on the ASCII letters; other characters are kept.
  They are only used before a comparison with ASCII text (\<open>isValidQid\<close>, the category
  table), which a string with any other character fails before and after the mapping.
\<close>

definition upper_char :: "char \<Rightarrow> char" where
  "upper_char c =
     (let n = (of_char c :: nat) in if 97 \<le> n \<and> n \<le> 122 then char_of (n - 32) else c)"

definition lower_char :: "char \<Rightarrow> char" where
  "lower_char c =
     (let n = (of_char c :: nat) in if 65 \<le> n \<and> n \<le> 90 then char_of (n + 32) else c)"

definition toUpperCase :: "string \<Rightarrow> string" where
  "toUpperCase s = map upper_char s"

definition toLowerCase :: "string \<Rightarrow> string" where
  "toLowerCase s = map lower_char s"

text \<open>\<open>s.split('/').pop()\<close>: the part of \<open>s\<close> after its last slash (all of \<open>s\<close> without one).\<close>

definition last_segment :: "string \<Rightarrow> string" where
  "last_segment s = rev (takeWhile (\<lambda>c. c \<noteq> CHR ''/'') (rev s))"

section \<open>Input sanitization (lib/sanitization.ts)\<close>

text \<open>The six \<open>replace\<close> calls of \<open>sanitizeEntityName\<close>, one character at a time.\<close>

definition replace_char :: "char \<Rightarrow> string \<Rightarrow> string \<Rightarrow> string" where
  "replace_char c r s = concat (map (\<lambda>x. if x = c then r else [x]) s)"

definition sanitizeEntityName :: "string \<Rightarrow> error + string" where
  "sanitizeEntityName name0 =
     (if name0 = [] then Inl (Error ''Entity name must be a non-empty string'')
      else
        let name1 = trim name0 in
        if name1 = [] then Inl (Error ''Entity name cannot be empty or whitespace only'')
        else if length name1 > 200 then Inl (Error ''Entity name is too long (max 200 characters)'')
        else
          let name2 = replace_char (CHR 0x5C) [CHR 0x5C, CHR 0x5C] name1;
              name3 = replace_char (CHR 0x22) [CHR 0x5C, CHR 0x22] name2;
              name4 = replace_char (CHR 0x27) [CHR 0x5C, CHR 0x27] name3;
              name5 = replace_char (CHR 0x0A) [CHR 0x5C, CHR ''n''] name4;
              name6 = replace_char (CHR 0x0D) [CHR 0x5C, CHR ''r''] name5;
              name7 = replace_char (CHR 0x09) [CHR 0x5C, CHR ''t''] name6
          in Inr name7)"

text \<open>The regular expression \<open>/^Q\d+$/\<close>: a \<open>Q\<close> followed by one or more ASCII digits.\<close>

definition is_digit :: "char \<Rightarrow> bool" where
  "is_digit c = (let n = (of_char c :: nat) in 48 \<le> n \<and> n \<le> 57)"

definition isValidQid :: "string \<Rightarrow> bool" where
  "isValidQid qid =
     (case qid of [] \<Rightarrow> False | c # ds \<Rightarrow> c = CHR ''Q'' \<and> ds \<noteq> [] \<and> list_all is_digit ds)"

definition sanitizeQid :: "string \<Rightarrow> error + string" where
  "sanitizeQid qid0 =
     (if qid0 = [] then Inl (Error ''QID must be a non-empty string'')
      else
        let qid = toUpperCase (trim qid0) in
        if \<not> isValidQid qid
        then Inl (Error (''Invalid QID format: '' @ qid @
                         ''. Expected format: Q followed by digits (e.g., Q42)''))
        else Inr qid)"

text \<open>
  A JavaScript \<open>number\<close>: \<open>NaN\<close>, the two infinities, or a finite value (every finite
  double is a rational). \<open>validateDepth\<close> returns the floor, an integer.
\<close>

datatype number = NaN | PosInfinity | NegInfinity | Finite rat

definition validateDepth :: "number \<Rightarrow> error + int" where
  "validateDepth depth =
     (case depth of
        NaN \<Rightarrow> Inl (Error ''Depth must be a number'')
      | NegInfinity \<Rightarrow> Inl (Error ''Depth must be at least 1'')
      | PosInfinity \<Rightarrow> Inl (Error ''Depth cannot exceed 10 (performance limit)'')
      | Finite q \<Rightarrow>
          (let d = \<lfloor>q\<rfloor> in
           if d < 1 then Inl (Error ''Depth must be at least 1'')
           else if d > 10 then Inl (Error ''Depth cannot exceed 10 (performance limit)'')
           else Inr d))"

text \<open>The loop of \<open>validateEntityList\<close>: \<open>seen\<close> and \<open>unique\<close> hold the same strings.\<close>

fun unique_trimmed :: "string list \<Rightarrow> string list \<Rightarrow> string list" where
  "unique_trimmed unique [] = unique"
| "unique_trimmed unique (entity # entities) =
     (let trimmed = trim entity in
      if trimmed = [] then unique_trimmed unique entities
      else if trimmed \<notin> set unique then unique_trimmed (unique @ [trimmed]) entities
      else unique_trimmed unique entities)"

definition validateEntityList :: "string list \<Rightarrow> nat \<Rightarrow> error + string list" where
  "validateEntityList entities maxEntities =
     (if length entities = 0 then Inl (Error ''At least one entity must be provided'')
      else if length entities > maxEntities
        then Inl (Error (''Too many entities (max '' @ decimal maxEntities @ '')''))
      else
        let unique = unique_trimmed [] entities in
        if length unique = 0 then Inl (Error ''At least one non-empty entity must be provided'')
        else Inr unique)"

section \<open>Edge categories (lib/edgeCategories.ts)\<close>

definition EDGE_CATEGORY_MAP :: "(string \<times> string) list" where
  "EDGE_CATEGORY_MAP = [
    (''spouse'', ''family''), (''father'', ''family''), (''mother'', ''family''),
    (''child'', ''family''), (''sibling'', ''family''), (''relative'', ''family''),
    (''partner'', ''family''), (''married name'', ''family''), (''family name'', ''family''),
    (''family'', ''family''), (''stepfather'', ''family''), (''stepmother'', ''family''),
    (''educated at'', ''education''), (''alma mater'', ''education''),
    (''student of'', ''education''), (''doctoral advisor'', ''education''),
    (''doctoral student'', ''education''), (''academic degree'', ''education''),
    (''student'', ''education''), (''employer'', ''career''), (''occupation'', ''career''),
    (''position held'', ''career''), (''notable work'', ''career''),
    (''field of work'', ''career''), (''award received'', ''career''),
    (''nominated for'', ''career''), (''military rank'', ''career''),
    (''profession'', ''career''), (''work period (start)'', ''career''),
    (''work period (end)'', ''career''), (''country'', ''geographic''),
    (''country of citizenship'', ''geographic''), (''place of birth'', ''geographic''),
    (''place of death'', ''geographic''), (''place of burial'', ''geographic''),
    (''residence'', ''geographic''), (''headquarters location'', ''geographic''),
    (''located in'', ''geographic''), (''location'', ''geographic''),
    (''capital'', ''geographic''), (''continent'', ''geographic''),
    (''located in the administrative territorial entity'', ''geographic''),
    (''territory claimed by'', ''geographic''), (''capital of'', ''geographic''),
    (''country of origin'', ''geographic''), (''shares border with'', ''geographic''),
    (''located on terrain feature'', ''geographic''), (''member of'', ''membership''),
    (''member of political party'', ''membership''),
    (''member of sports team'', ''membership''), (''part of'', ''membership''),
    (''has part'', ''membership''), (''facet of'', ''membership''),
    (''subclass of'', ''membership''), (''instance of'', ''membership''),
    (''affiliation'', ''membership''), (''religious order'', ''membership''),
    (''religion or worldview'', ''membership''), (''political party'', ''membership''),
    (''allegiance'', ''membership''), (''founded by'', ''career''),
    (''discoverer or inventor'', ''career''), (''developer'', ''career''),
    (''creator'', ''career''), (''author'', ''career''), (''director'', ''career'')]"

text \<open>
  \<open>EDGE_CATEGORY_MAP[lower] || 'other'\<close>, for the keys of the table itself (the labels
  \<open>constructor\<close> and \<open>__proto__\<close> would read \<open>Object.prototype\<close>).
\<close>

definition categorizeEdge :: "string \<Rightarrow> string" where
  "categorizeEdge label =
     (let lower = trim (toLowerCase label) in
      case map_of EDGE_CATEGORY_MAP lower of Some category \<Rightarrow> category | None \<Rightarrow> ''other'')"


section \<open>The environment\<close>

text \<open>\<open>ConnectionData\<close> (lib/cache.ts), the raw unit returned by the connection fetcher.\<close>

record ConnectionData =
  conn_source :: string
  conn_target :: string
  conn_target_label :: string
  conn_label :: string
  conn_image :: "string option"
  conn_group :: string
  conn_type_label :: string

text \<open>\<open>CacheEntry<T>\<close> (lib/cache.ts) and \<open>CachedResponse<T>\<close> (types.ts).\<close>

record 'a CacheEntry =
  entry_data :: 'a
  entry_expires :: int

record 'a CachedResponse =
  resp_data :: 'a
  resp_timestamp :: int

text \<open>
  A value of \<open>localStorage\<close> is a string. \<open>Garbage\<close> is a string that \<open>getFromStorage\<close> cannot
  use (empty, or \<open>JSON.parse\<close> throws); \<open>Parsed entry\<close> is a string that parses to \<open>entry\<close>,
  of the shape the cast \<open>CacheEntry<T>\<close> claims.
\<close>

datatype 'a item = Garbage | Parsed "'a CacheEntry"

type_synonym 'a store = "string \<rightharpoonup> 'a item"

text \<open>
  A SPARQL query is its template and the text spliced into it: the sanitized name of
  the lookup query, and the \<open>VALUES\<close> string and the \<open>LIMIT\<close> of the batch query.
\<close>

datatype query = QidLookup string | BatchQuery string nat

text \<open>One row of \<open>results.bindings\<close>: \<open>res.x.value\<close> is \<open>res ''x''\<close>, \<open>None\<close> when \<open>res.x\<close> is missing.\<close>

type_synonym binding = "string \<rightharpoonup> string"

text \<open>
  What the endpoint does with a request: \<open>fetch\<close> rejects, or there is a response with
  \<open>ok\<close>, \<open>status\<close>, the body text and the bindings of its JSON (\<open>None\<close> when
  \<open>response.json()\<close> rejects or the value has no \<open>results.bindings\<close>).
\<close>

datatype response = Rejected | Response bool nat string "binding list option"

text \<open>
  The world the engine runs in. The two typed stores are the entries of \<open>localStorage\<close>
  read through \<open>getFromStorage<string>\<close> and \<open>getFromStorage<ConnectionData[]>\<close>, under
  their full keys. Everything the environment decides is a tape read in order:
  \<open>clock\<close> gives the successive values of \<open>Date.now()\<close>, \<open>setItemThrows\<close> says whether
  the n-th \<open>localStorage.setItem\<close> throws, \<open>network\<close> answers the n-th request, and
  \<open>random\<close> gives the draws of the shuffle. \<open>requests\<close> lists the queries sent so far.
  \<open>fetchLog\<close> is a history variable that nothing reads: the batches handed to
  \<open>fetchBatchConnections\<close> by \<open>generateGraph\<close>, each with the connections it returned.
  \<open>responseCache\<close> is the module-level \<open>Map\<close> of api.ts, for results of type \<open>'a\<close>.
\<close>

record 'a world =
  qidStore :: "string option store"
  connStore :: "ConnectionData list store"
  clock :: "nat \<Rightarrow> int"
  clockReads :: nat
  setItemThrows :: "nat \<Rightarrow> bool"
  setItemCalls :: nat
  network :: "nat \<Rightarrow> query \<Rightarrow> response"
  requests :: "query list"
  random :: "nat \<Rightarrow> nat"
  randomReads :: nat
  fetchLog :: "(string list \<times> ConnectionData list) list"
  responseCache :: "string \<rightharpoonup> 'a CachedResponse"

definition Date_now :: "'a world \<Rightarrow> int \<times> 'a world" where
  "Date_now w = (clock w (clockReads w), w\<lparr>clockReads := clockReads w + 1\<rparr>)"

section \<open>The persistent cache (lib/cache.ts)\<close>

definition QID_CACHE_PREFIX :: string where
  "QID_CACHE_PREFIX = ''wg_qid_''"

definition CONN_CACHE_PREFIX :: string where
  "CONN_CACHE_PREFIX = ''wg_conn_v2_''"

definition QID_TTL :: int where
  "QID_TTL = 24 * 60 * 60 * 1000"

definition CONN_TTL :: int where
  "CONN_TTL = 60 * 60 * 1000"

definition startsWith :: "string \<Rightarrow> string \<Rightarrow> bool" where
  "startsWith s p = (take (length p) s = p)"

text \<open>
  The generic functions take the store they work on as its selector and its update
  function. \<open>getFromStorage\<close> reads the clock only for an entry that parses.
\<close>

definition getFromStorage ::
  "('a world \<Rightarrow> 'b store) \<Rightarrow> (('b store \<Rightarrow> 'b store) \<Rightarrow> 'a world \<Rightarrow> 'a world) \<Rightarrow>
   string \<Rightarrow> 'a world \<Rightarrow> 'b option \<times> 'a world" where
  "getFromStorage sel upd key w =
     (case sel w key of
        None \<Rightarrow> (None, w)
      | Some Garbage \<Rightarrow> (None, w)
      | Some (Parsed entry) \<Rightarrow>
          (let (now, w1) = Date_now w in
           if now > entry_expires entry then (None, upd (\<lambda>s. s(key := None)) w1)
           else (Some (entry_data entry), w1)))"

definition setItem ::
  "(('b store \<Rightarrow> 'b store) \<Rightarrow> 'a world \<Rightarrow> 'a world) \<Rightarrow> string \<Rightarrow> 'b item \<Rightarrow> 'a world \<Rightarrow>
   (error + unit) \<times> 'a world" where
  "setItem upd key v w =
     (let w1 = w\<lparr>setItemCalls := setItemCalls w + 1\<rparr> in
      if setItemThrows w (setItemCalls w) then (Inl QuotaExceeded, w1)
      else (Inr (), upd (\<lambda>s. s(key \<mapsto> v)) w1))"

text \<open>
  The sweeps of \<open>evictExpired\<close> and \<open>clearAllCaches\<close> over the keys of \<open>localStorage\<close>:
  only keys with one of the two prefixes are touched.
\<close>

definition has_cache_prefix :: "string \<Rightarrow> bool" where
  "has_cache_prefix key = (startsWith key QID_CACHE_PREFIX \<or> startsWith key CONN_CACHE_PREFIX)"

definition evict_store :: "int \<Rightarrow> 'b store \<Rightarrow> 'b store" where
  "evict_store now s =
     (\<lambda>key. if \<not> has_cache_prefix key then s key
            else (case s key of
                    Some (Parsed entry) \<Rightarrow> if now > entry_expires entry then None else s key
                  | _ \<Rightarrow> None))"

definition evictExpired :: "'a world \<Rightarrow> 'a world" where
  "evictExpired w =
     (let (now, w1) = Date_now w in
      w1\<lparr>qidStore := evict_store now (qidStore w1), connStore := evict_store now (connStore w1)\<rparr>)"

definition clear_store :: "'b store \<Rightarrow> 'b store" where
  "clear_store s = (\<lambda>key. if has_cache_prefix key then None else s key)"

definition clearAllCaches :: "'a world \<Rightarrow> 'a world" where
  "clearAllCaches w = w\<lparr>qidStore := clear_store (qidStore w), connStore := clear_store (connStore w)\<rparr>"

definition setInStorage ::
  "(('b store \<Rightarrow> 'b store) \<Rightarrow> 'a world \<Rightarrow> 'a world) \<Rightarrow> string \<Rightarrow> 'b \<Rightarrow> int \<Rightarrow> 'a world \<Rightarrow> 'a world" where
  "setInStorage upd key d ttl w =
     (let (now, w1) = Date_now w;
          entry = \<lparr>entry_data = d, entry_expires = now + ttl\<rparr>
      in case setItem upd key (Parsed entry) w1 of
           (Inr _, w2) \<Rightarrow> w2
         | (Inl _, w2) \<Rightarrow>
             (case setItem upd key (Parsed entry) (evictExpired w2) of
                (Inr _, w3) \<Rightarrow> w3
              | (Inl _, w3) \<Rightarrow> snd (setItem upd key (Parsed entry) (clearAllCaches w3))))"

text \<open>
  \<open>getCachedQid\<close> returns \<open>entry.data\<close>, a string or \<open>null\<close>; \<open>null\<close> data and a miss are the
  same \<open>null\<close> to the caller.
\<close>

definition getCachedQid :: "string \<Rightarrow> 'a world \<Rightarrow> string option \<times> 'a world" where
  "getCachedQid name w =
     (case getFromStorage qidStore qidStore_update (QID_CACHE_PREFIX @ name) w of
        (Some d, w1) \<Rightarrow> (d, w1)
      | (None, w1) \<Rightarrow> (None, w1))"

definition setCachedQid :: "string \<Rightarrow> string option \<Rightarrow> 'a world \<Rightarrow> 'a world" where
  "setCachedQid name qid w = setInStorage qidStore_update (QID_CACHE_PREFIX @ name) qid QID_TTL w"

definition getCachedConnections :: "string \<Rightarrow> 'a world \<Rightarrow> ConnectionData list option \<times> 'a world" where
  "getCachedConnections qid w = getFromStorage connStore connStore_update (CONN_CACHE_PREFIX @ qid) w"

definition setCachedConnections :: "string \<Rightarrow> ConnectionData list \<Rightarrow> 'a world \<Rightarrow> 'a world" where
  "setCachedConnections qid connections w =
     setInStorage connStore_update (CONN_CACHE_PREFIX @ qid) connections CONN_TTL w"


section \<open>JavaScript objects as records of properties\<close>

text \<open>
  A \<open>Record<string, T>\<close> is an association list in insertion order; \<open>obj[k] = v\<close> is
  \<open>AList.update\<close>, and \<open>k in obj\<close> is \<open>map_of obj k \<noteq> None\<close> for the keys this program stores
  (names inherited from \<open>Object.prototype\<close> are left out). \<open>Object.entries\<close> and
  \<open>Object.values\<close> list the keys that are array indices first, in ascending numeric
  order, and then the other keys in insertion order.
\<close>

definition nat_of_digits :: "string \<Rightarrow> nat" where
  "nat_of_digits s = foldl (\<lambda>n c. 10 * n + ((of_char c :: nat) - 48)) 0 s"

definition is_array_index :: "string \<Rightarrow> bool" where
  "is_array_index k =
     (k \<noteq> [] \<and> list_all is_digit k \<and> (k = ''0'' \<or> hd k \<noteq> CHR ''0'') \<and>
      nat_of_digits k < 2 ^ 32 - 1)"

definition own_entries :: "(string \<times> 'v) list \<Rightarrow> (string \<times> 'v) list" where
  "own_entries obj =
     sort_key (\<lambda>kv. nat_of_digits (fst kv)) (filter (\<lambda>kv. is_array_index (fst kv)) obj) @
     filter (\<lambda>kv. \<not> is_array_index (fst kv)) obj"

section \<open>The SPARQL client (lib/sparql.ts)\<close>

definition SPARQL_RESULT_LIMIT :: nat where
  "SPARQL_RESULT_LIMIT = 2000"

text \<open>
  \<open>querySparql\<close> sends the query (it joins \<open>requests\<close>) and reads the answer of the
  endpoint to this request.
\<close>

definition querySparql :: "query \<Rightarrow> 'a world \<Rightarrow> (error + binding list) \<times> 'a world" where
  "querySparql q w =
     (let w1 = w\<lparr>requests := requests w @ [q]\<rparr> in
      case network w (length (requests w)) q of
        Rejected \<Rightarrow> (Inl FetchRejected, w1)
      | Response ok status body json \<Rightarrow>
          if \<not> ok
          then (Inl (Error (''SPARQL query failed ('' @ decimal status @ ''): '' @
                            take 200 body)), w1)
          else (case json of
                  None \<Rightarrow> (Inl FetchRejected, w1)
                | Some bindings \<Rightarrow> (Inr bindings, w1)))"

definition determineGroup :: "string \<Rightarrow> string" where
  "determineGroup entityTypeQid =
     (if entityTypeQid = ''Q5'' then ''person''
      else if entityTypeQid \<in> set [''Q3918'', ''Q737498'', ''Q3914'', ''Q875538'', ''Q38723'']
        then ''school''
      else if entityTypeQid \<in> set [''Q6256'', ''Q3624078'', ''Q1763527''] then ''country''
      else if entityTypeQid \<in> set [''Q515'', ''Q1549591'', ''Q3455524'', ''Q532'', ''Q5119'']
        then ''city''
      else if entityTypeQid \<in> set [''Q2221906'', ''Q82794'', ''Q15642541''] then ''location''
      else if entityTypeQid \<in> set [''Q43229'', ''Q163740'', ''Q484652'', ''Q2659904'']
        then ''organization''
      else if entityTypeQid \<in> set [''Q4830453'', ''Q891723'', ''Q6881511''] then ''company''
      else ''concept'')"

text \<open>
  \<open>getWikidataId\<close>. The two \<open>try\<close> blocks are the case distinctions on \<open>Inl\<close>: the
  exception of \<open>sanitizeEntityName\<close>, and any exception in the second block (a failing
  query, or a first row without \<open>item\<close>), end in \<open>return null\<close>.
\<close>

definition getWikidataId :: "string \<Rightarrow> 'a world \<Rightarrow> (error + string option) \<times> 'a world" where
  "getWikidataId name w =
     (case getCachedQid name w of
        (Some cached, w1) \<Rightarrow> (Inr (if cached = ''null'' then None else Some cached), w1)
      | (None, w1) \<Rightarrow>
          (case sanitizeEntityName name of
             Inl e \<Rightarrow> (Inr None, w1)
           | Inr sanitizedName \<Rightarrow>
               (case querySparql (QidLookup sanitizedName) w1 of
                  (Inl e, w2) \<Rightarrow> (Inr None, w2)
                | (Inr [], w2) \<Rightarrow> (Inr None, setCachedQid name (Some ''null'') w2)
                | (Inr (row # rows), w2) \<Rightarrow>
                    (case row ''item'' of
                       None \<Rightarrow> (Inr None, w2)
                     | Some v \<Rightarrow>
                         (let qid = last_segment v
                          in (Inr (Some qid), setCachedQid name (Some qid) w2))))))"

text \<open>The first loop of \<open>fetchBatchConnections\<close>: the cache is asked for each identifier.\<close>

fun check_cache ::
  "string list \<Rightarrow> string list \<Rightarrow> ConnectionData list \<Rightarrow> 'a world \<Rightarrow>
   (string list \<times> ConnectionData list) \<times> 'a world" where
  "check_cache [] uncachedQids cachedConnections w = ((uncachedQids, cachedConnections), w)"
| "check_cache (qid # qids) uncachedQids cachedConnections w =
     (case getCachedConnections qid w of
        (Some cached, w1) \<Rightarrow> check_cache qids uncachedQids (cachedConnections @ cached) w1
      | (None, w1) \<Rightarrow> check_cache qids (uncachedQids @ [qid]) cachedConnections w1)"

text \<open>
  One row of the result: \<open>Inr None\<close> is the \<open>continue\<close> on an invalid target, \<open>Inl\<close> the
  \<open>TypeError\<close> of a row without \<open>target\<close> or \<open>source\<close>. \<open>x || d\<close> takes \<open>d\<close> for a missing
  and for an empty string.
\<close>

definition or_else :: "string option \<Rightarrow> string \<Rightarrow> string" where
  "or_else v d = (case v of None \<Rightarrow> d | Some s \<Rightarrow> if s = [] then d else s)"

definition connection_of :: "binding \<Rightarrow> error + ConnectionData option" where
  "connection_of res =
     (case res ''target'' of
        None \<Rightarrow> Inl TypeError
      | Some t \<Rightarrow>
          (let targetId = last_segment t in
           if \<not> isValidQid targetId then Inr None
           else
             (case res ''source'' of
                None \<Rightarrow> Inl TypeError
              | Some s \<Rightarrow>
                  (let sourceId = last_segment s;
                       typeQid = or_else (res ''typeQID'') [];
                       isHuman = (res ''isHuman'' = Some ''true'');
                       grp = (if isHuman then ''person'' else determineGroup typeQid)
                   in Inr (Some \<lparr>conn_source = sourceId, conn_target = targetId,
                         conn_target_label = or_else (res ''targetLabel'') targetId,
                         conn_label = or_else (res ''propLabel'') ''link'',
                         conn_image = (case res ''image'' of None \<Rightarrow> None
                                       | Some i \<Rightarrow> if i = [] then None else Some i),
                         conn_group = grp,
                         conn_type_label = or_else (res ''typeLabel'') ''Concept''\<rparr>)))))"

type_synonym by_source = "(string \<times> ConnectionData list) list"

fun group_rows ::
  "binding list \<Rightarrow> by_source \<Rightarrow> ConnectionData list \<Rightarrow> error + (by_source \<times> ConnectionData list)" where
  "group_rows [] connectionsBySource allConnections = Inr (connectionsBySource, allConnections)"
| "group_rows (res # rest) connectionsBySource allConnections =
     (case connection_of res of
        Inl e \<Rightarrow> Inl e
      | Inr None \<Rightarrow> group_rows rest connectionsBySource allConnections
      | Inr (Some connection) \<Rightarrow>
          group_rows rest
            (case map_of connectionsBySource (conn_source connection) of
               Some conns \<Rightarrow>
                 AList.update (conn_source connection) (conns @ [connection]) connectionsBySource
             | None \<Rightarrow> connectionsBySource)
            (allConnections @ [connection]))"

text \<open>
  \<open>fetchBatchConnections\<close>. Every exception inside the \<open>try\<close> block (the query, a
  malformed row) ends in \<open>return cachedConnections\<close>; the cache is written only after
  all rows have been read.
\<close>

definition fetchBatchConnections ::
  "string list \<Rightarrow> 'a world \<Rightarrow> (error + ConnectionData list) \<times> 'a world" where
  "fetchBatchConnections qids w =
     (if length qids = 0 then (Inr [], w)
      else
        (case check_cache qids [] [] w of
           ((uncachedQids, cachedConnections), w1) \<Rightarrow>
             if length uncachedQids = 0 then (Inr cachedConnections, w1)
             else
               (let valuesStr = join '' '' (map (\<lambda>qid. ''wd:'' @ qid) uncachedQids)
                in case querySparql (BatchQuery valuesStr SPARQL_RESULT_LIMIT) w1 of
                     (Inl e, w2) \<Rightarrow> (Inr cachedConnections, w2)
                   | (Inr bindings, w2) \<Rightarrow>
                       (case group_rows bindings
                               (foldl (\<lambda>obj qid. AList.update qid [] obj) [] uncachedQids) [] of
                          Inl e \<Rightarrow> (Inr cachedConnections, w2)
                        | Inr (connectionsBySource, allConnections) \<Rightarrow>
                            (Inr (cachedConnections @ allConnections),
                             foldl (\<lambda>w' (qid, conns). setCachedConnections qid conns w') w2
                               (own_entries connectionsBySource))))))"


text \<open>
  What the connection cache answers when it is asked for each identifier of a list in
  turn (a read can remove an expired entry and reads the clock), the identifiers it has
  no valid entry for, and the connections it holds for the others. These follow the
  words of the specification of \<open>fetchBatch\<close>, to be compared with \<open>check_cache\<close>.
\<close>

fun cache_answers :: "string list \<Rightarrow> 'a world \<Rightarrow> ConnectionData list option list" where
  "cache_answers [] w = []"
| "cache_answers (qid # qids) w =
     (case getCachedConnections qid w of (r, w1) \<Rightarrow> r # cache_answers qids w1)"

definition uncached_ids :: "string list \<Rightarrow> 'a world \<Rightarrow> string list" where
  "uncached_ids qids w =
     map fst (filter (\<lambda>qr. snd qr = None) (zip qids (cache_answers qids w)))"

definition cached_connections :: "string list \<Rightarrow> 'a world \<Rightarrow> ConnectionData list" where
  "cached_connections qids w =
     concat (map (\<lambda>r. case r of None \<Rightarrow> [] | Some cs \<Rightarrow> cs) (cache_answers qids w))"

text \<open>The batch query for a list of identifiers.\<close>

definition batch_query :: "string list \<Rightarrow> query" where
  "batch_query qids =
     BatchQuery (join '' '' (map (\<lambda>qid. ''wd:'' @ qid) qids)) SPARQL_RESULT_LIMIT"


section \<open>Graph generation (lib/graphGenerator.ts)\<close>

record GraphNode =
  node_id :: string
  node_label :: string
  node_group :: string
  node_shape :: string
  node_image :: "string option"
  node_size :: nat
  node_title :: string
  node_isInitialEntity :: "bool option"

record GraphData =
  gd_nodes :: "GraphNode list"
  gd_edges :: "GraphEdge list"

record GenerateMapRequest =
  req_names :: "string list option"
  req_qids :: "string list option"
  req_depth :: number

definition PLACEHOLDER_IMG :: string where
  "PLACEHOLDER_IMG =
     ''https://upload.wikimedia.org/wikipedia/commons/7/7c/Profile_avatar_placeholder_large.png''"

record depth_config =
  max_nodes_per_layer :: nat
  batch_size :: nat
  result_limit :: nat

definition DEPTH_CONFIG :: "(nat \<times> depth_config) list" where
  "DEPTH_CONFIG = [
     (1, \<lparr>max_nodes_per_layer = 50, batch_size = 50, result_limit = 3000\<rparr>),
     (2, \<lparr>max_nodes_per_layer = 40, batch_size = 45, result_limit = 2800\<rparr>),
     (3, \<lparr>max_nodes_per_layer = 30, batch_size = 40, result_limit = 2500\<rparr>),
     (4, \<lparr>max_nodes_per_layer = 25, batch_size = 35, result_limit = 2200\<rparr>),
     (5, \<lparr>max_nodes_per_layer = 20, batch_size = 30, result_limit = 2000\<rparr>),
     (6, \<lparr>max_nodes_per_layer = 15, batch_size = 25, result_limit = 1800\<rparr>),
     (7, \<lparr>max_nodes_per_layer = 12, batch_size = 20, result_limit = 1500\<rparr>),
     (8, \<lparr>max_nodes_per_layer = 10, batch_size = 15, result_limit = 1200\<rparr>),
     (9, \<lparr>max_nodes_per_layer = 8, batch_size = 12, result_limit = 1000\<rparr>),
     (10, \<lparr>max_nodes_per_layer = 5, batch_size = 10, result_limit = 800\<rparr>)]"

definition getDepthConfig :: "nat \<Rightarrow> depth_config" where
  "getDepthConfig depth =
     (case map_of DEPTH_CONFIG depth of
        Some c \<Rightarrow> c
      | None \<Rightarrow> \<lparr>max_nodes_per_layer = 30, batch_size = 40, result_limit = 2500\<rparr>)"

text \<open>
  \<open>shuffleArray\<close>: \<open>Math.floor(Math.random() * (i + 1))\<close> is some index in \<open>0..i\<close>; it is
  the next draw of the \<open>random\<close> tape, reduced modulo \<open>i + 1\<close>.
\<close>

definition random_index :: "nat \<Rightarrow> 'a world \<Rightarrow> nat \<times> 'a world" where
  "random_index n w = (random w (randomReads w) mod n, w\<lparr>randomReads := randomReads w + 1\<rparr>)"

fun shuffle_loop :: "nat \<Rightarrow> 'b list \<Rightarrow> 'a world \<Rightarrow> 'b list \<times> 'a world" where
  "shuffle_loop 0 a w = (a, w)"
| "shuffle_loop (Suc i) a w =
     (let (j, w1) = random_index (Suc i + 1) w
      in shuffle_loop i (a[Suc i := a ! j, j := a ! Suc i]) w1)"

definition shuffleArray :: "'b list \<Rightarrow> 'a world \<Rightarrow> 'b list \<times> 'a world" where
  "shuffleArray arr w = shuffle_loop (length arr - 1) arr w"

text \<open>The local variables of \<open>generateGraph\<close> that its loops update.\<close>

record graph_state =
  st_nodes :: "(string \<times> GraphNode) list"
  st_edges :: "GraphEdge list"
  st_processedIds :: "string set"
  st_initialEntityIds :: "string set"
  st_edgeIds :: "string set"
  st_currentLayerIds :: "string list"

definition initial_state :: graph_state where
  "initial_state = \<lparr>st_nodes = [], st_edges = [], st_processedIds = {},
     st_initialEntityIds = {}, st_edgeIds = {}, st_currentLayerIds = []\<rparr>"

text \<open>The loop over the provided QIDs.\<close>

fun process_qids :: "string list \<Rightarrow> graph_state \<Rightarrow> graph_state" where
  "process_qids [] st = st"
| "process_qids (qid # qids) st =
     process_qids qids
       (st\<lparr>st_currentLayerIds := st_currentLayerIds st @ [qid],
           st_initialEntityIds := insert qid (st_initialEntityIds st),
           st_nodes := AList.update qid
             \<lparr>node_id = qid, node_label = qid, node_group = ''concept'', node_shape = ''dot'',
              node_image = Some PLACEHOLDER_IMG, node_size = 40, node_title = ''Loading...'',
              node_isInitialEntity = Some True\<rparr> (st_nodes st)\<rparr>)"

text \<open>
  The loop that resolves the names. \<open>if (qid)\<close> fails for \<open>null\<close> and for the empty string.
  The progress callback and the console are not modelled.
\<close>

fun resolve_names ::
  "string list \<Rightarrow> graph_state \<Rightarrow> 'a world \<Rightarrow> (error + graph_state) \<times> 'a world" where
  "resolve_names [] st w = (Inr st, w)"
| "resolve_names (name # names) st w =
     (case getWikidataId name w of
        (Inl e, w1) \<Rightarrow> (Inl e, w1)
      | (Inr None, w1) \<Rightarrow> resolve_names names st w1
      | (Inr (Some qid), w1) \<Rightarrow>
          if qid = [] then resolve_names names st w1
          else
            (case map_of (st_nodes st) qid of
               None \<Rightarrow>
                 resolve_names names
                   (st\<lparr>st_initialEntityIds := insert qid (st_initialEntityIds st),
                       st_nodes := AList.update qid
                         \<lparr>node_id = qid, node_label = name, node_group = ''concept'',
                          node_shape = ''dot'', node_image = Some PLACEHOLDER_IMG, node_size = 40,
                          node_title = ''Type: Initial Search Entity'',
                          node_isInitialEntity = Some True\<rparr> (st_nodes st),
                       st_currentLayerIds := st_currentLayerIds st @ [qid]\<rparr>) w1
             | Some node \<Rightarrow>
                 resolve_names names
                   (st\<lparr>st_nodes := AList.update qid (node\<lparr>node_label := name\<rparr>) (st_nodes st)\<rparr>) w1))"

text \<open>
  The batch loop of one layer, with \<open>slice(i, i + batchSizeForLayer)\<close> as \<open>take\<close> of
  \<open>drop\<close>. The batch size is read from the configuration of the layer's level. Each call
  of \<open>fetchBatchConnections\<close> is recorded in \<open>fetchLog\<close>. \<open>sleep\<close> only lets time pass.
\<close>

function fetch_batches ::
  "nat \<Rightarrow> string list \<Rightarrow> nat \<Rightarrow> ConnectionData list \<Rightarrow> 'a world \<Rightarrow>
   (error + ConnectionData list) \<times> 'a world" where
  "fetch_batches level toProcess i allNewConnections w =
     (let batchSizeForLayer = batch_size (getDepthConfig level) in
      if \<not> i < length toProcess then (Inr allNewConnections, w)
      else
        (let batch = take batchSizeForLayer (drop i toProcess)
         in case fetchBatchConnections batch w of
              (Inl e, w1) \<Rightarrow> (Inl e, w1)
            | (Inr connections, w1) \<Rightarrow>
                fetch_batches level toProcess (i + batchSizeForLayer)
                  (allNewConnections @ connections)
                  (w1\<lparr>fetchLog := fetchLog w1 @ [(batch, connections)]\<rparr>)))"
  by pat_completeness auto
termination
proof (relation "measure (\<lambda>(level, toProcess, i, allNewConnections, w). length toProcess - i)")
  show "wf (measure (\<lambda>(level, toProcess, i, allNewConnections, w). length toProcess - i))"
    by simp
next
  fix level :: nat and toProcess :: "string list" and i :: nat
    and allNewConnections :: "ConnectionData list" and w :: "'a world"
    and x :: nat and xa :: "string list" and xb y xc w1
  assume x: "x = batch_size (getDepthConfig level)" and i: "\<not> \<not> i < length toProcess"
  have "0 < batch_size (getDepthConfig level)"
    by (simp add: getDepthConfig_def DEPTH_CONFIG_def)
  with x i
  show "((level, toProcess, i + x, allNewConnections @ xc,
           w1\<lparr>fetchLog := fetchLog w1 @ [(xa, xc)]\<rparr>),
          level, toProcess, i, allNewConnections, w)
        \<in> measure (\<lambda>(level, toProcess, i, allNewConnections, w). length toProcess - i)"
    by simp
qed

text \<open>The loop over the connections of a layer: new target nodes, deduplicated edges.\<close>

definition edge_id_of :: "string \<Rightarrow> string \<Rightarrow> string \<Rightarrow> string" where
  "edge_id_of src tgt lbl = src @ ''-'' @ tgt @ ''-'' @ lbl"

definition node_of_connection :: "ConnectionData \<Rightarrow> GraphNode" where
  "node_of_connection conn =
     (let imgUrl = or_else (conn_image conn) PLACEHOLDER_IMG;
          grp = conn_group conn;
          shape = (if grp = ''person'' then ''circularImage'' else ''dot'');
          size = (if grp = ''person'' then 30 else if grp = ''country'' then 22
                  else if grp = ''city'' then 18 else 15)
      in \<lparr>node_id = conn_target conn, node_label = conn_target_label conn, node_group = grp,
          node_shape = shape, node_image = Some imgUrl, node_size = size,
          node_title = ''Type: '' @ conn_type_label conn, node_isInitialEntity = None\<rparr>)"

fun process_connections ::
  "ConnectionData list \<Rightarrow> graph_state \<Rightarrow> string list \<Rightarrow> graph_state \<times> string list" where
  "process_connections [] st nextLayerIds = (st, nextLayerIds)"
| "process_connections (conn # conns) st nextLayerIds =
     (let src = conn_source conn;
          tgt = conn_target conn;
          known = (map_of (st_nodes st) tgt \<noteq> None);
          st1 = (if \<not> known
                 then st\<lparr>st_nodes := AList.update tgt (node_of_connection conn) (st_nodes st)\<rparr>
                 else st);
          nextLayerIds1 = (if \<not> known then nextLayerIds @ [tgt] else nextLayerIds);
          edgeId = edge_id_of src tgt (conn_label conn);
          st2 = (if edgeId \<notin> st_edgeIds st1
                 then st1\<lparr>st_edgeIds := insert edgeId (st_edgeIds st1),
                          st_edges := st_edges st1 @
                            [\<lparr>edge_id = edgeId, edge_from = src, edge_to = tgt,
                              edge_label = conn_label conn, edge_arrows = ''to'',
                              edge_hidden = None,
                              edge_category = Some (categorizeEdge (conn_label conn))\<rparr>]\<rparr>
                 else st1)
      in process_connections conns st2 nextLayerIds1)"


text \<open>
  The head of the loop body: the identifiers of the layer that are not yet processed,
  cut to a random subset when they are more than the layer allows.
\<close>

definition select_layer ::
  "nat \<Rightarrow> graph_state \<Rightarrow> 'a world \<Rightarrow> string list \<times> 'a world" where
  "select_layer maxNodesForLayer st w =
     (let toProcess = filter (\<lambda>i. i \<notin> st_processedIds st) (st_currentLayerIds st) in
      if length toProcess > maxNodesForLayer
      then (case shuffleArray toProcess w of (shuffled, w1) \<Rightarrow> (take maxNodesForLayer shuffled, w1))
      else (toProcess, w))"

text \<open>
  The layer loop \<open>for (currentDepth = 0; currentDepth < depth; currentDepth++)\<close>; each
  \<open>break\<close> returns the state as it is.
\<close>

function layer_loop ::
  "nat \<Rightarrow> nat \<Rightarrow> graph_state \<Rightarrow> 'a world \<Rightarrow> (error + graph_state) \<times> 'a world" where
  "layer_loop depth currentDepth st w =
     (if \<not> currentDepth < depth then (Inr st, w)
      else if length (st_currentLayerIds st) = 0 then (Inr st, w)
      else
        (case select_layer (max_nodes_per_layer (getDepthConfig (currentDepth + 1))) st w of
           (toProcess, w1) \<Rightarrow>
             if length toProcess = 0 then (Inr st, w1)
             else
               (case fetch_batches (currentDepth + 1) toProcess 0 [] w1 of
                  (Inl e, w2) \<Rightarrow> (Inl e, w2)
                | (Inr allNewConnections, w2) \<Rightarrow>
                    (case process_connections allNewConnections st [] of
                       (st1, nextLayerIds) \<Rightarrow>
                         layer_loop depth (currentDepth + 1)
                           (st1\<lparr>st_processedIds := st_processedIds st1 \<union> set toProcess,
                                st_currentLayerIds := nextLayerIds\<rparr>) w2))))"
  by pat_completeness auto
termination
  by (relation "measure (\<lambda>(depth, currentDepth, st, w). depth - currentDepth)") auto

text \<open>\<open>qids = rawQids.map((q) => sanitizeQid(q))\<close>: the first invalid QID throws.\<close>

fun sanitize_all :: "string list \<Rightarrow> error + string list" where
  "sanitize_all [] = Inr []"
| "sanitize_all (q # qs) =
     (case sanitizeQid q of
        Inl e \<Rightarrow> Inl e
      | Inr qid \<Rightarrow> (case sanitize_all qs of Inl e \<Rightarrow> Inl e | Inr qids \<Rightarrow> Inr (qid # qids)))"

definition validate_optional_list :: "string list option \<Rightarrow> error + string list" where
  "validate_optional_list l = (case l of None \<Rightarrow> Inr [] | Some xs \<Rightarrow> validateEntityList xs 10)"

definition generateGraph ::
  "GenerateMapRequest \<Rightarrow> 'a world \<Rightarrow> (error + GraphData) \<times> 'a world" where
  "generateGraph request w =
     (case validate_optional_list (req_names request) of
        Inl e \<Rightarrow> (Inl e, w)
      | Inr names \<Rightarrow>
     (case validate_optional_list (req_qids request) of
        Inl e \<Rightarrow> (Inl e, w)
      | Inr rawQids \<Rightarrow>
     (case validateDepth (req_depth request) of
        Inl e \<Rightarrow> (Inl e, w)
      | Inr depth \<Rightarrow>
          if length names = 0 \<and> length rawQids = 0
          then (Inl (Error ''Must provide either names or qids''), w)
          else
     (case sanitize_all rawQids of
        Inl e \<Rightarrow> (Inl e, w)
      | Inr qids \<Rightarrow>
     (case resolve_names names (process_qids qids initial_state) w of
        (Inl e, w1) \<Rightarrow> (Inl e, w1)
      | (Inr st1, w1) \<Rightarrow>
          if length (st_currentLayerIds st1) = 0
          then (Inl (Error ''Could not resolve any entities''), w1)
          else
     (case layer_loop (nat depth) 0 st1 w1 of
        (Inl e, w2) \<Rightarrow> (Inl e, w2)
      | (Inr st2, w2) \<Rightarrow>
          (Inr \<lparr>gd_nodes = map snd (own_entries (st_nodes st2)), gd_edges = st_edges st2\<rparr>,
           w2)))))))"

section \<open>The response cache (api.ts)\<close>

definition CACHE_TTL :: int where
  "CACHE_TTL = 10 * 60 * 1000"

definition isCacheValid :: "'a CachedResponse option \<Rightarrow> 'a world \<Rightarrow> bool \<times> 'a world" where
  "isCacheValid cached w =
     (case cached of
        None \<Rightarrow> (False, w)
      | Some c \<Rightarrow> (case Date_now w of (now, w1) \<Rightarrow> (now - resp_timestamp c < CACHE_TTL, w1)))"

text \<open>
  \<open>cachedFetch\<close>: the producer \<open>fetcher\<close> is a computation in the world that returns a value
  or throws; an exception of the producer leaves \<open>cachedFetch\<close> before anything is stored.
\<close>

definition cachedFetch ::
  "string \<Rightarrow> ('a world \<Rightarrow> (error + 'a) \<times> 'a world) \<Rightarrow> bool \<Rightarrow> 'a world \<Rightarrow> (error + 'a) \<times> 'a world" where
  "cachedFetch key fetcher skipCache w =
     (case (if \<not> skipCache
            then (case isCacheValid (responseCache w key) w of
                    (valid, w1) \<Rightarrow> (if valid then responseCache w key else None, w1))
            else (None, w)) of
        (Some cached, w1) \<Rightarrow> (Inr (resp_data cached), w1)
      | (None, w1) \<Rightarrow>
          (case fetcher w1 of
             (Inl e, w2) \<Rightarrow> (Inl e, w2)
           | (Inr d, w2) \<Rightarrow>
               (case Date_now w2 of
                  (now, w3) \<Rightarrow>
                    (Inr d,
                     w3\<lparr>responseCache :=
                          (responseCache w3)(key \<mapsto> \<lparr>resp_data = d, resp_timestamp = now\<rparr>)\<rparr>))))"

text \<open>
  \<open>generateMap\<close>. \<open>JSON.stringify\<close> is a function of the platform; it is the parameter
  \<open>stringify\<close>.
\<close>

definition generateMap ::
  "(GenerateMapRequest \<Rightarrow> string) \<Rightarrow> GenerateMapRequest \<Rightarrow> bool \<Rightarrow> GraphData world \<Rightarrow>
   (error + GraphData) \<times> GraphData world" where
  "generateMap stringify request skipCache w =
     cachedFetch (''generate-'' @ stringify request) (generateGraph request) skipCache w"


section \<open>Shortest paths (lib/shortestPath.ts)\<close>

record PathResult =
  nodeIds :: "string list"
  edgeIds :: "string list"

text \<open>
  The adjacency \<open>Map\<close> is an association list from a node to its array of
  \<open>{neighbor, edgeId}\<close> pairs; \<open>adj.get(k) || []\<close> is \<open>neighbors_of\<close>. The \<open>parent\<close> map is only
  read and written by key, so it is a map to \<open>(node, edgeId)\<close> pairs, and \<open>visited\<close> is a
  set.
\<close>

type_synonym adjacency = "(string \<times> (string \<times> string) list) list"

type_synonym parents = "string \<rightharpoonup> string \<times> string"

definition neighbors_of :: "adjacency \<Rightarrow> string \<Rightarrow> (string \<times> string) list" where
  "neighbors_of adj k = (case map_of adj k of Some ns \<Rightarrow> ns | None \<Rightarrow> [])"

definition add_edge :: "adjacency \<Rightarrow> GraphEdge \<Rightarrow> adjacency" where
  "add_edge adj e =
     (let adj1 = (if map_of adj (edge_from e) = None then AList.update (edge_from e) [] adj else adj);
          adj2 = (if map_of adj1 (edge_to e) = None then AList.update (edge_to e) [] adj1 else adj1);
          adj3 = AList.update (edge_from e)
                   (neighbors_of adj2 (edge_from e) @ [(edge_to e, edge_id e)]) adj2
      in AList.update (edge_to e)
           (neighbors_of adj3 (edge_to e) @ [(edge_from e, edge_id e)]) adj3)"

text \<open>
  The reconstruction loop \<open>while (parent.has(cur))\<close> follows parent pointers and need not
  end on an arbitrary map: it is a partial function, \<open>None\<close> when it runs forever.
\<close>

partial_function (option) walk_parents ::
  "parents \<Rightarrow> string \<Rightarrow> string list \<Rightarrow> string list \<Rightarrow> (string list \<times> string list) option" where
  "walk_parents parent cur ns es =
     (case parent cur of
        None \<Rightarrow> Some (ns, es)
      | Some (node, edgeId) \<Rightarrow> walk_parents parent node (ns @ [node]) (es @ [edgeId]))"

definition reconstruct :: "parents \<Rightarrow> string \<Rightarrow> PathResult option" where
  "reconstruct parent endId =
     (case walk_parents parent endId [endId] [] of
        None \<Rightarrow> None
      | Some (ns, es) \<Rightarrow> Some \<lparr>nodeIds = rev ns, edgeIds = rev es\<rparr>)"

text \<open>
  The inner loop over the neighbors of \<open>current\<close>: \<open>Inl r\<close> is the \<open>return\<close> from inside the
  loop with the reconstructed path, \<open>Inr\<close> the state after the last neighbor.
\<close>

fun scan_neighbors ::
  "string \<Rightarrow> string \<Rightarrow> (string \<times> string) list \<Rightarrow> string set \<Rightarrow> parents \<Rightarrow> string list \<Rightarrow>
   PathResult option + (string set \<times> parents \<times> string list)" where
  "scan_neighbors endId current [] visited parent queue = Inr (visited, parent, queue)"
| "scan_neighbors endId current ((neighbor, edgeId) # rest) visited parent queue =
     (if neighbor \<in> visited then scan_neighbors endId current rest visited parent queue
      else
        (let visited1 = insert neighbor visited;
             parent1 = parent(neighbor \<mapsto> (current, edgeId))
         in if neighbor = endId then Inl (reconstruct parent1 endId)
            else scan_neighbors endId current rest visited1 parent1 (queue @ [neighbor])))"

definition adj_nodes :: "adjacency \<Rightarrow> string set" where
  "adj_nodes adj = set (concat (map (\<lambda>kv. map fst (snd kv)) adj))"

lemma scan_neighbors_measure:
  "scan_neighbors endId current ns visited parent queue = Inr (visited', parent', queue') \<Longrightarrow>
   fst ` set ns \<subseteq> U \<Longrightarrow> finite U \<Longrightarrow>
   length queue' + 2 * card (U - visited') \<le> length queue + 2 * card (U - visited)"
proof (induction ns arbitrary: visited parent queue)
  case Nil
  then show ?case by simp
next
  case (Cons a ns)
  obtain neighbor edgeId where a: "a = (neighbor, edgeId)"
    by (cases a)
  show ?case
  proof (cases "neighbor \<in> visited")
    case True
    with Cons a show ?thesis by simp
  next
    case False
    with Cons.prems a have ne: "neighbor \<noteq> endId"
      by (auto simp: Let_def split: if_splits)
    with Cons.prems a False
    have step: "scan_neighbors endId current ns (insert neighbor visited)
                  (parent(neighbor \<mapsto> (current, edgeId))) (queue @ [neighbor]) =
                Inr (visited', parent', queue')"
      by (simp add: Let_def)
    from Cons.prems a have sub: "fst ` set ns \<subseteq> U" and inU: "neighbor \<in> U"
      by auto
    from Cons.IH [OF step sub Cons.prems(3)]
    have "length queue' + 2 * card (U - visited')
          \<le> length (queue @ [neighbor]) + 2 * card (U - insert neighbor visited)" .
    moreover have "card (U - insert neighbor visited) < card (U - visited)"
      using inU False Cons.prems(3)
      by (intro psubset_card_mono) auto
    ultimately show ?thesis by simp
  qed
qed

lemma neighbors_in_adj_nodes: "fst ` set (neighbors_of adj k) \<subseteq> adj_nodes adj"
proof (cases "map_of adj k")
  case None
  then show ?thesis by (simp add: neighbors_of_def)
next
  case (Some ns)
  then have "(k, ns) \<in> set adj"
    by (rule map_of_SomeD)
  with Some show ?thesis
    by (force simp: neighbors_of_def adj_nodes_def)
qed

lemma scan_neighbors_decreases:
  assumes "scan_neighbors endId current (neighbors_of adj current) visited parent rest =
           Inr (visited1, parent1, queue1)"
  shows "length queue1 + 2 * card (adj_nodes adj - visited1)
         < Suc (length rest + 2 * card (adj_nodes adj - visited))"
proof -
  have "finite (adj_nodes adj)"
    by (simp add: adj_nodes_def)
  with scan_neighbors_measure [OF assms neighbors_in_adj_nodes]
  show ?thesis by simp
qed

text \<open>
  The outer loop \<open>while (queue.length > 0)\<close>. The result is \<open>Some None\<close> for \<open>return null\<close>,
  \<open>Some (Some path)\<close> for a returned path, and \<open>None\<close> when the reconstruction loop does
  not return.
\<close>

function bfs ::
  "adjacency \<Rightarrow> string \<Rightarrow> string set \<Rightarrow> parents \<Rightarrow> string list \<Rightarrow> PathResult option option" where
  "bfs adj endId visited parent queue =
     (case queue of
        [] \<Rightarrow> Some None
      | current # rest \<Rightarrow>
          (case scan_neighbors endId current (neighbors_of adj current) visited parent rest of
             Inl None \<Rightarrow> None
           | Inl (Some path) \<Rightarrow> Some (Some path)
           | Inr (visited1, parent1, queue1) \<Rightarrow> bfs adj endId visited1 parent1 queue1))"
  by pat_completeness auto
termination
  by (relation "measure (\<lambda>(adj, endId, visited, parent, queue).
                   length queue + 2 * card (adj_nodes adj - visited))")
    (auto dest!: scan_neighbors_decreases)

definition findShortestPath :: "GraphEdge list \<Rightarrow> string \<Rightarrow> string \<Rightarrow> PathResult option option" where
  "findShortestPath es startId endId =
     (if startId = endId then Some (Some \<lparr>nodeIds = [startId], edgeIds = []\<rparr>)
      else
        (let adj = foldl add_edge [] es in
         if map_of adj startId = None \<or> map_of adj endId = None then Some None
         else bfs adj endId {startId} Map.empty [startId]))"


section \<open>Invariants of the graph builder\<close>

text \<open>
  The node object is keyed by node id, each key once; the edge list and the set
  \<open>edgeIds\<close> agree, no id occurs twice, and every id is the one derived from the edge's own
  source, target and label.
\<close>

definition nodes_ok :: "(string \<times> GraphNode) list \<Rightarrow> bool" where
  "nodes_ok ns = (distinct (map fst ns) \<and> (\<forall>kv \<in> set ns. node_id (snd kv) = fst kv))"

definition edges_ok :: "graph_state \<Rightarrow> bool" where
  "edges_ok st =
     (st_edgeIds st = edge_id ` set (st_edges st) \<and> distinct (map edge_id (st_edges st)) \<and>
      (\<forall>e \<in> set (st_edges st). edge_id e = edge_id_of (edge_from e) (edge_to e) (edge_label e)))"

definition connection_edge_id :: "ConnectionData \<Rightarrow> string" where
  "connection_edge_id c = edge_id_of (conn_source c) (conn_target c) (conn_label c)"

text \<open>The edges of a list that carry the id derived from a connection.\<close>

definition edges_for :: "ConnectionData \<Rightarrow> GraphEdge list \<Rightarrow> GraphEdge list" where
  "edges_for c es = filter (\<lambda>e. edge_id e = connection_edge_id c) es"


section \<open>The undirected graph of an edge list\<close>

text \<open>
  \<open>joined es u v i\<close>: some edge of the list with id \<open>i\<close> joins \<open>u\<close> and \<open>v\<close>, in either
  direction. A walk is a non-empty sequence of nodes whose consecutive nodes are joined;
  two nodes are connected when a walk leads from one to the other; a node occurs in the
  list when it is an endpoint of some edge.
\<close>

definition joined :: "GraphEdge list \<Rightarrow> string \<Rightarrow> string \<Rightarrow> string \<Rightarrow> bool" where
  "joined es u v i =
     (\<exists>e \<in> set es. edge_id e = i \<and>
        ((edge_from e = u \<and> edge_to e = v) \<or> (edge_to e = u \<and> edge_from e = v)))"

definition is_walk :: "GraphEdge list \<Rightarrow> string list \<Rightarrow> bool" where
  "is_walk es ns =
     (ns \<noteq> [] \<and> (\<forall>k. Suc k < length ns \<longrightarrow> (\<exists>i. joined es (ns ! k) (ns ! Suc k) i)))"

definition connected :: "GraphEdge list \<Rightarrow> string \<Rightarrow> string \<Rightarrow> bool" where
  "connected es s t = (\<exists>ns. is_walk es ns \<and> hd ns = s \<and> last ns = t)"

definition occurs :: "GraphEdge list \<Rightarrow> string \<Rightarrow> bool" where
  "occurs es v = (\<exists>e \<in> set es. edge_from e = v \<or> edge_to e = v)"

text \<open>\<open>reach es s n v\<close>: \<open>v\<close> is the end of a walk of \<open>n\<close> edges that starts in \<open>s\<close>.\<close>

fun reach :: "GraphEdge list \<Rightarrow> string \<Rightarrow> nat \<Rightarrow> string \<Rightarrow> bool" where
  "reach es s 0 v = (v = s)"
| "reach es s (Suc n) v = (\<exists>u i. reach es s n u \<and> joined es u v i)"

text \<open>
  A node sequence with the ids of the edges between consecutive nodes, read forwards
  (\<open>path_ok\<close>) and, as the parent pointers give it, backwards from a node (\<open>back_path\<close>).
\<close>

fun path_ok :: "GraphEdge list \<Rightarrow> string list \<Rightarrow> string list \<Rightarrow> bool" where
  "path_ok es [v] [] = True"
| "path_ok es (u # v # ns) (i # is) = (joined es u v i \<and> path_ok es (v # ns) is)"
| "path_ok es ns is = False"

fun back_path :: "GraphEdge list \<Rightarrow> string \<Rightarrow> string list \<Rightarrow> string list \<Rightarrow> bool" where
  "back_path es v [] [] = True"
| "back_path es v (u # ns) (i # is) = (joined es u v i \<and> back_path es u ns is)"
| "back_path es v ns is = False"

text \<open>The adjacency structure lists exactly the joined pairs.\<close>

definition adj_ok :: "GraphEdge list \<Rightarrow> adjacency \<Rightarrow> bool" where
  "adj_ok es adj = (\<forall>u v i. ((v, i) \<in> set (neighbors_of adj u)) = joined es u v i)"

text \<open>
  The invariants of the search, for a level function \<open>l\<close> on the visited nodes. The
  parent pointers form a tree rooted in the start node, in which a node of level \<open>n\<close>
  cannot be reached by fewer than \<open>n\<close> edges. The queue is sorted by level and spans at
  most two levels; every visited node that has left the queue has all its neighbors
  visited; every node within the level of the head of the queue is visited.
\<close>

definition tree_ok ::
  "GraphEdge list \<Rightarrow> string \<Rightarrow> (string \<Rightarrow> nat) \<Rightarrow> string set \<Rightarrow> parents \<Rightarrow> bool" where
  "tree_ok es s l visited parent =
     (s \<in> visited \<and> l s = 0 \<and> parent s = None \<and>
      (\<forall>v \<in> visited. v \<noteq> s \<longrightarrow>
         (\<exists>u i. parent v = Some (u, i) \<and> u \<in> visited \<and> joined es u v i \<and> l v = Suc (l u))) \<and>
      (\<forall>v \<in> visited. \<forall>n. reach es s n v \<longrightarrow> l v \<le> n))"

definition outer_inv ::
  "GraphEdge list \<Rightarrow> adjacency \<Rightarrow> string \<Rightarrow> string \<Rightarrow> (string \<Rightarrow> nat) \<Rightarrow> string set \<Rightarrow> parents \<Rightarrow>
   string list \<Rightarrow> bool" where
  "outer_inv es adj s e l visited parent queue =
     (tree_ok es s l visited parent \<and> e \<notin> visited \<and> set queue \<subseteq> visited \<and>
      sorted (map l queue) \<and>
      (\<forall>x \<in> set queue. l x \<le> Suc (l (hd queue))) \<and>
      (\<forall>v \<in> visited - set queue. \<forall>wi \<in> set (neighbors_of adj v). fst wi \<in> visited) \<and>
      (queue \<noteq> [] \<longrightarrow> (\<forall>v n. reach es s n v \<and> n \<le> l (hd queue) \<longrightarrow> v \<in> visited)))"

definition scan_inv ::
  "GraphEdge list \<Rightarrow> adjacency \<Rightarrow> string \<Rightarrow> string \<Rightarrow> (string \<Rightarrow> nat) \<Rightarrow> string \<Rightarrow>
   (string \<times> string) list \<Rightarrow> string set \<Rightarrow> parents \<Rightarrow> string list \<Rightarrow> bool" where
  "scan_inv es adj s e l c rest visited parent queue =
     (tree_ok es s l visited parent \<and> e \<notin> visited \<and> c \<in> visited \<and> set queue \<subseteq> visited \<and>
      sorted (map l queue) \<and>
      (\<forall>x \<in> set queue. l c \<le> l x \<and> l x \<le> Suc (l c)) \<and>
      (\<forall>v \<in> visited - set queue - {c}. \<forall>wi \<in> set (neighbors_of adj v). fst wi \<in> visited) \<and>
      (\<forall>wi \<in> set (neighbors_of adj c). wi \<in> set rest \<or> fst wi \<in> visited) \<and>
      (\<forall>v n. reach es s n v \<and> n \<le> l c \<longrightarrow> v \<in> visited) \<and>
      set rest \<subseteq> set (neighbors_of adj c))"

text \<open>What is proved of a returned path: its ends, its edges, and that it is shortest.\<close>

definition path_result :: "GraphEdge list \<Rightarrow> string \<Rightarrow> string \<Rightarrow> PathResult \<Rightarrow> bool" where
  "path_result es s e p =
     (hd (nodeIds p) = s \<and> last (nodeIds p) = e \<and> path_ok es (nodeIds p) (edgeIds p) \<and>
      (\<forall>n. reach es s n e \<longrightarrow> length (edgeIds p) \<le> n))"


section \<open>Example environments\<close>

text \<open>
  An environment with empty caches whose endpoint rejects every request, and whose
  clock stands at 0; used to run the engine on concrete requests.
\<close>

definition offline_world :: "GraphData world" where
  "offline_world =
     \<lparr>qidStore = Map.empty, connStore = Map.empty, clock = (\<lambda>n. 0), clockReads = 0,
      setItemThrows = (\<lambda>n. False), setItemCalls = 0, network = (\<lambda>n q. Rejected),
      requests = [], random = (\<lambda>n. 0), randomReads = 0, fetchLog = [],
      responseCache = Map.empty\<rparr>"

text \<open>A request for the single seed \<open>Q42\<close> at depth 1, and the graph it yields offline.\<close>

definition seed_request :: GenerateMapRequest where
  "seed_request = \<lparr>req_names = None, req_qids = Some [''Q42''], req_depth = Finite 1\<rparr>"

definition seed_graph :: GraphData where
  "seed_graph =
     \<lparr>gd_nodes = [\<lparr>node_id = ''Q42'', node_label = ''Q42'', node_group = ''concept'',
         node_shape = ''dot'', node_image = Some PLACEHOLDER_IMG, node_size = 40,
         node_title = ''Loading...'', node_isInitialEntity = Some True\<rparr>],
      gd_edges = []\<rparr>"

text \<open>
  An offline environment whose connection cache holds one unexpired entry, for \<open>Q1\<close>.
\<close>

definition born_in :: ConnectionData where
  "born_in = \<lparr>conn_source = ''Q1'', conn_target = ''Q2'', conn_target_label = ''Earth'',
     conn_label = ''born in'', conn_image = None, conn_group = ''concept'',
     conn_type_label = ''Concept''\<rparr>"

definition cached_world :: "GraphData world" where
  "cached_world = offline_world\<lparr>connStore :=
     [''wg_conn_v2_Q1'' \<mapsto> Parsed \<lparr>entry_data = [born_in], entry_expires = 3600000\<rparr>]\<rparr>"

text \<open>
  Two result rows, \<open>Q42 \<rightarrow> Q5\<close> and \<open>Q5 \<rightarrow> Q42\<close>, and the connections they are read as.
\<close>

definition q42_to_q5 :: binding where
  "q42_to_q5 = [''source'' \<mapsto> ''http://www.wikidata.org/entity/Q42'',
     ''target'' \<mapsto> ''http://www.wikidata.org/entity/Q5'',
     ''targetLabel'' \<mapsto> ''human'', ''propLabel'' \<mapsto> ''instance of'']"

definition q5_to_q42 :: binding where
  "q5_to_q42 = [''source'' \<mapsto> ''http://www.wikidata.org/entity/Q5'',
     ''target'' \<mapsto> ''http://www.wikidata.org/entity/Q42'',
     ''targetLabel'' \<mapsto> ''Douglas Adams'', ''propLabel'' \<mapsto> ''has instance'']"

definition instance_of :: ConnectionData where
  "instance_of = \<lparr>conn_source = ''Q42'', conn_target = ''Q5'', conn_target_label = ''human'',
     conn_label = ''instance of'', conn_image = None, conn_group = ''concept'',
     conn_type_label = ''Concept''\<rparr>"

definition has_instance :: ConnectionData where
  "has_instance = \<lparr>conn_source = ''Q5'', conn_target = ''Q42'',
     conn_target_label = ''Douglas Adams'', conn_label = ''has instance'', conn_image = None,
     conn_group = ''concept'', conn_type_label = ''Concept''\<rparr>"

text \<open>An endpoint that answers every request with the row \<open>Q42 \<rightarrow> Q5\<close>, twice.\<close>

definition twice_world :: "GraphData world" where
  "twice_world = offline_world\<lparr>network :=
     (\<lambda>n q. Response True 200 [] (Some [q42_to_q5, q42_to_q5]))\<rparr>"

text \<open>
  An endpoint that answers the first request with \<open>Q42 \<rightarrow> Q5\<close> and every later one with
  \<open>Q5 \<rightarrow> Q42\<close>, whose target carries the label \<open>Douglas Adams\<close>.
\<close>

definition relabel_world :: "GraphData world" where
  "relabel_world = offline_world\<lparr>network :=
     (\<lambda>n q. Response True 200 [] (Some (if n = 0 then [q42_to_q5] else [q5_to_q42])))\<rparr>"

definition two_layer_request :: GenerateMapRequest where
  "two_layer_request = \<lparr>req_names = None, req_qids = Some [''Q42''], req_depth = Finite 2\<rparr>"

text \<open>An offline environment whose identifier cache resolves \<open>Douglas Adams\<close> to \<open>Q42\<close>.\<close>

definition named_world :: "GraphData world" where
  "named_world = offline_world\<lparr>qidStore :=
     [''wg_qid_Douglas Adams'' \<mapsto> Parsed \<lparr>entry_data = Some ''Q42'', entry_expires = 86400000\<rparr>]\<rparr>"

definition seed_node :: GraphNode where
  "seed_node = \<lparr>node_id = ''Q42'', node_label = ''Q42'', node_group = ''concept'',
     node_shape = ''dot'', node_image = Some PLACEHOLDER_IMG, node_size = 40,
     node_title = ''Loading...'', node_isInitialEntity = Some True\<rparr>"

definition human_node :: GraphNode where
  "human_node = \<lparr>node_id = ''Q5'', node_label = ''human'', node_group = ''concept'',
     node_shape = ''dot'', node_image = Some PLACEHOLDER_IMG, node_size = 15,
     node_title = ''Type: Concept'', node_isInitialEntity = None\<rparr>"

definition instance_edge :: GraphEdge where
  "instance_edge = \<lparr>edge_id = ''Q42-Q5-instance of'', edge_from = ''Q42'', edge_to = ''Q5'',
     edge_label = ''instance of'', edge_arrows = ''to'', edge_hidden = None,
     edge_category = Some ''membership''\<rparr>"

definition has_instance_edge :: GraphEdge where
  "has_instance_edge = \<lparr>edge_id = ''Q5-Q42-has instance'', edge_from = ''Q5'', edge_to = ''Q42'',
     edge_label = ''has instance'', edge_arrows = ''to'', edge_hidden = None,
     edge_category = Some ''other''\<rparr>"

text \<open>
  Two edge lists: a square \<open>A - B - C - D - A\<close>, and two separate edges \<open>A - B\<close> and
  \<open>C - D\<close>.
\<close>

definition plain_edge :: "string \<Rightarrow> string \<Rightarrow> string \<Rightarrow> GraphEdge" where
  "plain_edge i u v = \<lparr>edge_id = i, edge_from = u, edge_to = v, edge_label = ''knows'',
     edge_arrows = ''to'', edge_hidden = None, edge_category = None\<rparr>"

definition square :: "GraphEdge list" where
  "square = [plain_edge ''1'' ''A'' ''B'', plain_edge ''2'' ''C'' ''B'',
     plain_edge ''3'' ''A'' ''D'', plain_edge ''4'' ''D'' ''C'']"

definition two_islands :: "GraphEdge list" where
  "two_islands = [plain_edge ''1'' ''A'' ''B'', plain_edge ''2'' ''C'' ''D'']"


section \<open>Properties of edge consolidation\<close>

lemma sum_count_update:
  "map_of m k = Some old \<Longrightarrow>
   sum_list (map (count \<circ> snd) (AList.update k new m)) + count old =
   sum_list (map (count \<circ> snd) m) + count new"
  by (induction m) (auto split: if_splits)

lemma sum_count_update_new:
  "map_of m k = None \<Longrightarrow>
   sum_list (map (count \<circ> snd) (AList.update k new m)) =
   sum_list (map (count \<circ> snd) m) + count new"
  by (induction m) (auto split: if_splits)

lemma consolidate_step_sum:
  "sum_list (map (count \<circ> snd) (consolidate_step m e)) = Suc (sum_list (map (count \<circ> snd) m))"
proof (cases "map_of m (edge_key e)")
  case None
  then show ?thesis
    by (simp add: consolidate_step_def sum_count_update_new)
next
  case (Some old)
  define new where "new = old\<lparr>labels := labels old @ [edge_label e], count := count old + 1,
    edge_label := join '', '' (labels old @ [edge_label e])\<rparr>"
  have "count new = Suc (count old)"
    by (simp add: new_def)
  with sum_count_update [OF Some, of new]
  have "sum_list (map (count \<circ> snd) (AList.update (edge_key e) new m)) =
        Suc (sum_list (map (count \<circ> snd) m))"
    by simp
  then show ?thesis
    using Some by (simp add: consolidate_step_def Let_def new_def)
qed

lemma alist_update_length:
  "length (AList.update k v m) \<le> Suc (length m)"
  by (induction m) auto

lemma consolidate_step_length:
  "length (consolidate_step m e) \<le> Suc (length m)"
  by (simp add: consolidate_step_def Let_def alist_update_length split: option.splits)

lemma consolidate_fold_sum:
  "sum_list (map (count \<circ> snd) (foldl consolidate_step m es)) =
   sum_list (map (count \<circ> snd) m) + length es"
  by (induction es arbitrary: m) (simp_all add: consolidate_step_sum)

lemma consolidate_fold_length:
  "length (foldl consolidate_step m es) \<le> length m + length es"
proof (induction es arbitrary: m)
  case Nil
  show ?case by simp
next
  case (Cons e es)
  have "length (foldl consolidate_step (consolidate_step m e) es)
        \<le> length (consolidate_step m e) + length es"
    by (rule Cons.IH)
  also have "\<dots> \<le> Suc (length m) + length es"
    using consolidate_step_length [of m e] by simp
  finally show ?case by simp
qed

text \<open>
  C8. For every edge list, the list returned by \<open>consolidateEdges\<close> is no longer than the
  input, and the \<open>count\<close> fields of the returned consolidated edges sum to the length of
  the input.
\<close>

theorem consolidateEdges_length_and_count:
  "length (consolidateEdges edges) \<le> length edges \<and>
   sum_list (map count (consolidateEdges edges)) = length edges"
proof -
  have "length (foldl consolidate_step [] edges) \<le> length edges"
    using consolidate_fold_length [of "[]" edges] by simp
  moreover have "sum_list (map (count \<circ> snd) (foldl consolidate_step [] edges)) = length edges"
    using consolidate_fold_sum [of "[]" edges] by simp
  ultimately show ?thesis
    by (simp add: consolidateEdges_def)
qed

text \<open>
  What the grouping does: the consolidated edge stored under a key carries the labels of
  all input edges with that key, in input order, their number, and the labels joined
  with a comma and a space. For edges whose \<open>from\<close> ids contain no hyphen, equal keys mean
  equal \<open>from\<close> and equal \<open>to\<close>.
\<close>

lemma edge_key_injective:
  assumes "CHR ''-'' \<notin> set (edge_from a)" and "CHR ''-'' \<notin> set (edge_from b)"
  shows "(edge_key a = edge_key b) = (edge_from a = edge_from b \<and> edge_to a = edge_to b)"
proof
  assume k: "edge_key a = edge_key b"
  have "takeWhile (\<lambda>c. c \<noteq> CHR ''-'') (edge_key a) = edge_from a"
    using assms(1) by (auto simp: edge_key_def takeWhile_tail)
  moreover have "takeWhile (\<lambda>c. c \<noteq> CHR ''-'') (edge_key b) = edge_from b"
    using assms(2) by (auto simp: edge_key_def takeWhile_tail)
  ultimately have "edge_from a = edge_from b"
    using k by simp
  with k show "edge_from a = edge_from b \<and> edge_to a = edge_to b"
    by (simp add: edge_key_def)
next
  assume "edge_from a = edge_from b \<and> edge_to a = edge_to b"
  then show "edge_key a = edge_key b"
    by (simp add: edge_key_def)
qed

lemma consolidate_step_lookup:
  "map_of (consolidate_step m e) k =
     (if k = edge_key e
      then (case map_of m k of
              Some existing \<Rightarrow>
                Some (existing\<lparr>labels := labels existing @ [edge_label e],
                               count := count existing + 1,
                               edge_label := join '', '' (labels existing @ [edge_label e])\<rparr>)
            | None \<Rightarrow>
                Some \<lparr>edge_id = edge_id e, edge_from = edge_from e, edge_to = edge_to e,
                      edge_label = edge_label e, edge_arrows = edge_arrows e,
                      edge_hidden = edge_hidden e, edge_category = edge_category e,
                      labels = [edge_label e], count = 1\<rparr>)
      else map_of m k)"
  by (simp add: consolidate_step_def Let_def update_conv' split: option.splits)

lemma consolidate_groups:
  "(map_of (foldl consolidate_step [] es) k = None) = (k \<notin> edge_key ` set es) \<and>
   (\<forall>c. map_of (foldl consolidate_step [] es) k = Some c \<longrightarrow>
      labels c = map edge_label (filter (\<lambda>e. edge_key e = k) es) \<and>
      count c = length (filter (\<lambda>e. edge_key e = k) es) \<and>
      edge_label c = join '', '' (labels c))"
proof (induction es rule: rev_induct)
  case Nil
  show ?case by simp
next
  case (snoc e es)
  show ?case
  proof (cases "k = edge_key e")
    case False
    with snoc show ?thesis
      by (simp add: consolidate_step_lookup)
  next
    case True
    show ?thesis
    proof (cases "map_of (foldl consolidate_step [] es) k")
      case None
      with snoc have "filter (\<lambda>e. edge_key e = k) es = []"
        by (auto simp: filter_empty_conv)
      with None True show ?thesis
        by (simp add: consolidate_step_lookup)
    next
      case (Some existing)
      with snoc True show ?thesis
        by (auto simp: consolidate_step_lookup)
    qed
  qed
qed

text \<open>
  C9. The grouping key is the concatenation \<open>from-to\<close>, which does not determine the
  ordered pair when an id contains a hyphen: the edges \<open>a-b \<rightarrow> c\<close> and \<open>a \<rightarrow> b-c\<close> have
  different \<open>from\<close> and different \<open>to\<close> ids and are nevertheless merged into one
  consolidated edge of count 2.
\<close>

theorem consolidateEdges_merges_distinct_pairs:
  "consolidateEdges
     [\<lparr>edge_id = ''1'', edge_from = ''a-b'', edge_to = ''c'', edge_label = ''x'',
       edge_arrows = ''to'', edge_hidden = None, edge_category = None\<rparr>,
      \<lparr>edge_id = ''2'', edge_from = ''a'', edge_to = ''b-c'', edge_label = ''y'',
       edge_arrows = ''to'', edge_hidden = None, edge_category = None\<rparr>] =
     [\<lparr>edge_id = ''1'', edge_from = ''a-b'', edge_to = ''c'', edge_label = ''x, y'',
       edge_arrows = ''to'', edge_hidden = None, edge_category = None,
       labels = [''x'', ''y''], count = 2\<rparr>]"
  by (simp add: consolidateEdges_def consolidate_step_def edge_key_def)

section \<open>Seeds of the crawl\<close>

text \<open>
  C2. The request with the identifiers \<open>q42\<close> and \<open>Q42\<close> passes \<open>validateEntityList\<close>, which
  removes duplicates before \<open>sanitizeQid\<close> puts both into upper case: the initial layer
  holds \<open>Q42\<close> twice, and the one batch of the crawl, and its query, name it twice.
\<close>

theorem generateGraph_duplicate_seed:
  "validate_optional_list (Some [''q42'', ''Q42'']) = Inr [''q42'', ''Q42''] \<and>
   sanitize_all [''q42'', ''Q42''] = Inr [''Q42'', ''Q42''] \<and>
   st_currentLayerIds (process_qids [''Q42'', ''Q42''] initial_state) = [''Q42'', ''Q42''] \<and>
   fetchLog (snd (generateGraph
      \<lparr>req_names = None, req_qids = Some [''q42'', ''Q42''], req_depth = Finite 1\<rparr>
      offline_world)) = [([''Q42'', ''Q42''], [])] \<and>
   requests (snd (generateGraph
      \<lparr>req_names = None, req_qids = Some [''q42'', ''Q42''], req_depth = Finite 1\<rparr>
      offline_world)) = [BatchQuery ''wd:Q42 wd:Q42'' 2000]"
  by code_simp


section \<open>The response cache\<close>

text \<open>
  C7. With \<open>skipCache\<close> false and an entry for the key whose age at the reading of the
  clock is below \<open>CACHE_TTL\<close> (10 minutes), \<open>cachedFetch\<close> returns the data of the entry and
  only reads the clock: the producer does not occur in the result. Otherwise the
  producer runs, and its value is returned and stored under the key with the next
  reading of the clock. Hence, after a call of \<open>generateMap\<close> that returned a graph, a
  call for the same request with \<open>skipCache\<close> false, in any later world that still has
  the entry and reads a time within the TTL of it, returns the same graph and sends no
  request.
\<close>

theorem cachedFetch_generateMap_cache:
  "(\<not> skipCache \<and> responseCache w key = Some c \<and>
      clock w (clockReads w) - resp_timestamp c < CACHE_TTL \<longrightarrow>
      cachedFetch key fetcher skipCache w =
        (Inr (resp_data c), w\<lparr>clockReads := clockReads w + 1\<rparr>)) \<and>
   (\<not> (\<not> skipCache \<and> (\<exists>c. responseCache w key = Some c \<and>
            clock w (clockReads w) - resp_timestamp c < CACHE_TTL)) \<and>
      fetcher (if skipCache \<or> responseCache w key = None then w
               else w\<lparr>clockReads := clockReads w + 1\<rparr>) = (Inr d, w2) \<longrightarrow>
      cachedFetch key fetcher skipCache w =
        (Inr d, w2\<lparr>clockReads := clockReads w2 + 1,
                  responseCache := (responseCache w2)
                    (key \<mapsto> \<lparr>resp_data = d, resp_timestamp = clock w2 (clockReads w2)\<rparr>)\<rparr>)) \<and>
   (generateMap stringify request skip w0 = (Inr g, w1) \<and>
      responseCache w' (''generate-'' @ stringify request) =
        responseCache w1 (''generate-'' @ stringify request) \<and>
      clock w' (clockReads w') -
        resp_timestamp (the (responseCache w1 (''generate-'' @ stringify request))) < CACHE_TTL \<longrightarrow>
      generateMap stringify request False w' = (Inr g, w'\<lparr>clockReads := clockReads w' + 1\<rparr>) \<and>
      requests (snd (generateMap stringify request False w')) = requests w')"
proof (intro conjI impI)
  assume "\<not> skipCache \<and> responseCache w key = Some c \<and>
          clock w (clockReads w) - resp_timestamp c < CACHE_TTL"
  then show "cachedFetch key fetcher skipCache w =
             (Inr (resp_data c), w\<lparr>clockReads := clockReads w + 1\<rparr>)"
    by (simp add: cachedFetch_def isCacheValid_def Date_now_def)
next
  assume a: "\<not> (\<not> skipCache \<and> (\<exists>c. responseCache w key = Some c \<and>
               clock w (clockReads w) - resp_timestamp c < CACHE_TTL)) \<and>
             fetcher (if skipCache \<or> responseCache w key = None then w
                      else w\<lparr>clockReads := clockReads w + 1\<rparr>) = (Inr d, w2)"
  show "cachedFetch key fetcher skipCache w =
        (Inr d, w2\<lparr>clockReads := clockReads w2 + 1,
                  responseCache := (responseCache w2)
                    (key \<mapsto> \<lparr>resp_data = d, resp_timestamp = clock w2 (clockReads w2)\<rparr>)\<rparr>)"
  proof (cases "skipCache \<or> responseCache w key = None")
    case True
    with a show ?thesis
      by (auto simp: cachedFetch_def isCacheValid_def Date_now_def)
  next
    case False
    then obtain c where c: "responseCache w key = Some c" and ns: "\<not> skipCache"
      by auto
    with a have "\<not> clock w (clockReads w) - resp_timestamp c < CACHE_TTL"
      by simp
    with a c ns show ?thesis
      by (simp add: cachedFetch_def isCacheValid_def Date_now_def)
  qed
next
  let ?key = "''generate-'' @ stringify request"
  assume a: "generateMap stringify request skip w0 = (Inr g, w1) \<and>
      responseCache w' ?key = responseCache w1 ?key \<and>
      clock w' (clockReads w') - resp_timestamp (the (responseCache w1 ?key)) < CACHE_TTL"
  then have first: "cachedFetch ?key (generateGraph request) skip w0 = (Inr g, w1)"
    by (simp add: generateMap_def)
  have "\<exists>c. responseCache w1 ?key = Some c \<and> resp_data c = g"
    using first
    by (auto simp: cachedFetch_def isCacheValid_def Date_now_def
             split: if_splits option.splits sum.splits prod.splits)
  then obtain c where c: "responseCache w1 ?key = Some c" "resp_data c = g"
    by blast
  with a have hit: "responseCache w' ?key = Some c"
    "clock w' (clockReads w') - resp_timestamp c < CACHE_TTL"
    by simp_all
  then have second: "generateMap stringify request False w' =
                     (Inr g, w'\<lparr>clockReads := clockReads w' + 1\<rparr>)"
    using c by (simp add: generateMap_def cachedFetch_def isCacheValid_def Date_now_def)
  then show "generateMap stringify request False w' =
             (Inr g, w'\<lparr>clockReads := clockReads w' + 1\<rparr>)" .
  from second show "requests (snd (generateMap stringify request False w')) = requests w'"
    by simp
qed

theorem cachedFetch_generateMap_cache_witness:
  "fst (generateMap (\<lambda>r. ''seed'') seed_request False offline_world) = Inr seed_graph \<and>
   responseCache (snd (generateMap (\<lambda>r. ''seed'') seed_request False offline_world))
     ''generate-seed'' = Some \<lparr>resp_data = seed_graph, resp_timestamp = 0\<rparr> \<and>
   fst (cachedFetch ''generate-seed'' (\<lambda>w. (Inl TypeError, w)) False
          (snd (generateMap (\<lambda>r. ''seed'') seed_request False offline_world))) = Inr seed_graph \<and>
   fst (generateMap (\<lambda>r. ''seed'') seed_request False
          (snd (generateMap (\<lambda>r. ''seed'') seed_request False offline_world))) = Inr seed_graph \<and>
   requests (snd (generateMap (\<lambda>r. ''seed'') seed_request False
          (snd (generateMap (\<lambda>r. ''seed'') seed_request False offline_world)))) =
   requests (snd (generateMap (\<lambda>r. ''seed'') seed_request False offline_world))"
proof -
  define s where "s = (\<lambda>r::GenerateMapRequest. ''seed'')"
  define key where "key = ''generate-'' @ s seed_request"
  define w2 where "w2 = snd (generateGraph seed_request offline_world)"
  define w1 where "w1 = snd (generateMap s seed_request False offline_world)"
  define c where "c = \<lparr>resp_data = seed_graph, resp_timestamp = clock w2 (clockReads w2)\<rparr>"
  have k: "key = ''generate-seed''"
    by (simp add: key_def s_def)
  have "fst (generateGraph seed_request offline_world) = Inr seed_graph"
    by code_simp
  then have produced: "generateGraph seed_request offline_world = (Inr seed_graph, w2)"
    unfolding w2_def by (metis prod.collapse)
  have empty: "responseCache offline_world key = None"
    by (simp add: offline_world_def)
  from empty produced
  have miss: "\<not> (\<not> False \<and> (\<exists>c. responseCache offline_world key = Some c \<and>
            clock offline_world (clockReads offline_world) - resp_timestamp c < CACHE_TTL)) \<and>
      generateGraph seed_request (if False \<or> responseCache offline_world key = None
         then offline_world
         else offline_world\<lparr>clockReads := clockReads offline_world + 1\<rparr>) = (Inr seed_graph, w2)"
    by simp
  note inst = cachedFetch_generateMap_cache
  from inst [where skipCache = False and w = offline_world and key = key
      and fetcher = "generateGraph seed_request" and d = seed_graph and ?w2.0 = w2,
      THEN conjunct2, THEN conjunct1, THEN mp, OF miss]
  have stored: "cachedFetch key (generateGraph seed_request) False offline_world =
        (Inr seed_graph, w2\<lparr>clockReads := clockReads w2 + 1,
           responseCache := (responseCache w2)(key \<mapsto> c)\<rparr>)"
    by (simp add: c_def)
  then have first: "generateMap s seed_request False offline_world = (Inr seed_graph, w1)"
    and w1: "w1 = w2\<lparr>clockReads := clockReads w2 + 1, responseCache := (responseCache w2)(key \<mapsto> c)\<rparr>"
    by (simp_all add: w1_def generateMap_def key_def)
  have t0: "clock w2 (clockReads w2) = 0" and t1: "clock w2 (clockReads w2 + 1) = 0"
    unfolding w2_def by code_simp+
  from w1 have entry: "responseCache w1 key = Some c"
    by simp
  from w1 t0 t1 have fresh: "clock w1 (clockReads w1) - resp_timestamp c < CACHE_TTL"
    by (simp add: c_def CACHE_TTL_def)
  from entry fresh have hit: "\<not> False \<and> responseCache w1 key = Some c \<and>
      clock w1 (clockReads w1) - resp_timestamp c < CACHE_TTL"
    by simp
  from inst [where skipCache = False and w = w1 and key = key and c = c
      and fetcher = "\<lambda>w. (Inl TypeError, w)", THEN conjunct1, THEN mp, OF hit]
  have unused: "fst (cachedFetch key (\<lambda>w. (Inl TypeError, w)) False w1) = Inr seed_graph"
    by (simp add: c_def)
  from first entry fresh
  have again: "generateMap s seed_request False offline_world = (Inr seed_graph, w1) \<and>
      responseCache w1 (''generate-'' @ s seed_request) =
        responseCache w1 (''generate-'' @ s seed_request) \<and>
      clock w1 (clockReads w1) -
        resp_timestamp (the (responseCache w1 (''generate-'' @ s seed_request))) < CACHE_TTL"
    by (simp add: key_def)
  from inst [where stringify = s and request = seed_request and skip = False
      and ?w0.0 = offline_world and g = seed_graph and ?w1.0 = w1 and w' = w1,
      THEN conjunct2, THEN conjunct2, THEN mp, OF again]
  have second: "fst (generateMap s seed_request False w1) = Inr seed_graph"
    and reqs: "requests (snd (generateMap s seed_request False w1)) = requests w1"
    by simp_all
  from first have r: "fst (generateMap s seed_request False offline_world) = Inr seed_graph"
    by simp
  from entry t0 have e: "responseCache w1 ''generate-seed'' =
      Some \<lparr>resp_data = seed_graph, resp_timestamp = 0\<rparr>"
    by (simp add: c_def k)
  from r e unused second reqs show ?thesis
    unfolding w1_def s_def k by (intro conjI)
qed


section \<open>Name resolution\<close>

lemma sanitizeEntityName_fails_iff:
  "(\<exists>e. sanitizeEntityName name = Inl e) = (trim name = [] \<or> 200 < length (trim name))"
proof (cases "name = []")
  case True
  then show ?thesis
    by (simp add: sanitizeEntityName_def trim_def)
next
  case False
  then show ?thesis
    by (simp add: sanitizeEntityName_def Let_def)
qed

lemma getWikidataId_returns: "\<exists>r w'. getWikidataId name w = (Inr r, w')"
  by (simp add: getWikidataId_def Let_def
           split: prod.splits option.splits sum.splits list.splits)

text \<open>
  C10. \<open>getWikidataId\<close> never ends in an exception: for every name and world it returns a
  value. Without a cache entry, a name that fails sanitization (empty or white space
  only, or longer than 200 characters after trimming; the parameter type leaves no
  non-string) gives \<open>null\<close>, and so does a lookup query that throws.
\<close>

theorem getWikidataId_never_throws:
  "(\<exists>r w'. getWikidataId name w = (Inr r, w')) \<and>
   ((\<exists>e. sanitizeEntityName name = Inl e) = (trim name = [] \<or> 200 < length (trim name))) \<and>
   (fst (getCachedQid name w) = None \<and> (trim name = [] \<or> 200 < length (trim name)) \<longrightarrow>
      fst (getWikidataId name w) = Inr None) \<and>
   (fst (getCachedQid name w) = None \<and> sanitizeEntityName name = Inr sanitizedName \<and>
    fst (querySparql (QidLookup sanitizedName) (snd (getCachedQid name w))) = Inl e \<longrightarrow>
      fst (getWikidataId name w) = Inr None)"
proof (intro conjI impI)
  show "\<exists>r w'. getWikidataId name w = (Inr r, w')"
    by (rule getWikidataId_returns)
next
  show "(\<exists>e. sanitizeEntityName name = Inl e) = (trim name = [] \<or> 200 < length (trim name))"
    by (rule sanitizeEntityName_fails_iff)
next
  assume a: "fst (getCachedQid name w) = None \<and> (trim name = [] \<or> 200 < length (trim name))"
  then obtain e where "sanitizeEntityName name = Inl e"
    using sanitizeEntityName_fails_iff [of name] by blast
  with a show "fst (getWikidataId name w) = Inr None"
    by (cases "getCachedQid name w") (simp add: getWikidataId_def)
next
  assume "fst (getCachedQid name w) = None \<and> sanitizeEntityName name = Inr sanitizedName \<and>
    fst (querySparql (QidLookup sanitizedName) (snd (getCachedQid name w))) = Inl e"
  then show "fst (getWikidataId name w) = Inr None"
    by (cases "getCachedQid name w";
        cases "querySparql (QidLookup sanitizedName) (snd (getCachedQid name w))")
       (simp add: getWikidataId_def)
qed

theorem getWikidataId_never_throws_witness:
  "fst (getWikidataId ''   '' offline_world) = Inr None \<and>
   fst (getWikidataId ''Douglas Adams'' offline_world) = Inr None"
proof -
  have c1: "fst (getCachedQid ''   '' offline_world) = None \<and>
            (trim ''   '' = [] \<or> 200 < length (trim ''   ''))"
    by code_simp
  have "fst (getCachedQid ''Douglas Adams'' offline_world) = None"
    by code_simp
  moreover have "sanitizeEntityName ''Douglas Adams'' = Inr ''Douglas Adams''"
    by code_simp
  moreover have "fst (querySparql (QidLookup ''Douglas Adams'')
             (snd (getCachedQid ''Douglas Adams'' offline_world))) = Inl FetchRejected"
    by (simp add: querySparql_def getCachedQid_def getFromStorage_def offline_world_def)
  ultimately have c2: "fst (getCachedQid ''Douglas Adams'' offline_world) = None \<and>
      sanitizeEntityName ''Douglas Adams'' = Inr ''Douglas Adams'' \<and>
      fst (querySparql (QidLookup ''Douglas Adams'')
             (snd (getCachedQid ''Douglas Adams'' offline_world))) = Inl FetchRejected"
    by (intro conjI)
  note t1 = getWikidataId_never_throws [of "''   ''" offline_world]
  note t2 = getWikidataId_never_throws
    [of "''Douglas Adams''" offline_world "''Douglas Adams''" FetchRejected]
  from t1 [THEN conjunct2, THEN conjunct2, THEN conjunct1, THEN mp, OF c1]
    t2 [THEN conjunct2, THEN conjunct2, THEN conjunct2, THEN mp, OF c2]
  show ?thesis by (rule conjI)
qed


section \<open>Batch fetching\<close>

lemma getCachedConnections_requests:
  "requests (snd (getCachedConnections qid w)) = requests w"
  by (simp add: getCachedConnections_def getFromStorage_def Date_now_def Let_def
           split: option.splits item.splits)

lemma check_cache_requests:
  "requests (snd (check_cache qids u c w)) = requests w"
proof (induction qids arbitrary: u c w)
  case Nil
  show ?case by simp
next
  case (Cons qid qids)
  obtain r w1 where g: "getCachedConnections qid w = (r, w1)"
    by (cases "getCachedConnections qid w")
  with getCachedConnections_requests [of qid w] have "requests w1 = requests w"
    by simp
  with g Cons.IH show ?case
    by (cases r) simp_all
qed

lemma check_cache_answers:
  "fst (check_cache qids u c w) =
     (u @ map fst (filter (\<lambda>qr. snd qr = None) (zip qids (cache_answers qids w))),
      c @ concat (map (\<lambda>r. case r of None \<Rightarrow> [] | Some cs \<Rightarrow> cs) (cache_answers qids w)))"
proof (induction qids arbitrary: u c w)
  case Nil
  show ?case by simp
next
  case (Cons qid qids)
  obtain r w1 where g: "getCachedConnections qid w = (r, w1)"
    by (cases "getCachedConnections qid w")
  with Cons.IH show ?case
    by (cases r) simp_all
qed

lemma check_cache_partition:
  "check_cache qids [] [] w =
     ((uncached_ids qids w, cached_connections qids w), snd (check_cache qids [] [] w))"
  using check_cache_answers [of qids "[]" "[]" w]
  by (simp add: uncached_ids_def cached_connections_def prod_eq_iff)

lemma querySparql_requests: "requests (snd (querySparql q w)) = requests w @ [q]"
  by (simp add: querySparql_def Let_def split: response.splits option.splits)

lemma fetchBatchConnections_returns:
  "\<exists>conns w'. fetchBatchConnections qids w = (Inr conns, w')"
  by (simp add: fetchBatchConnections_def Let_def split: prod.splits sum.splits)

text \<open>
  C6. \<open>fetchBatchConnections\<close> never ends in an exception. When some identifier has no
  valid cache entry and the one batch query sent for these identifiers throws, the
  result is exactly the connections the cache held for the other identifiers, and that
  query is the only request. When the cache has a valid entry for every identifier, the
  result is the cached connections and no request is sent.
\<close>

theorem fetchBatchConnections_degrades_to_cache:
  "(\<exists>conns w'. fetchBatchConnections qids w = (Inr conns, w')) \<and>
   (uncached_ids qids w \<noteq> [] \<and>
    isl (fst (querySparql (batch_query (uncached_ids qids w)) (snd (check_cache qids [] [] w)))) \<longrightarrow>
      fst (fetchBatchConnections qids w) = Inr (cached_connections qids w) \<and>
      requests (snd (fetchBatchConnections qids w)) =
        requests w @ [batch_query (uncached_ids qids w)]) \<and>
   (uncached_ids qids w = [] \<longrightarrow>
      fst (fetchBatchConnections qids w) = Inr (cached_connections qids w) \<and>
      requests (snd (fetchBatchConnections qids w)) = requests w)"
proof (intro conjI impI)
  show "\<exists>conns w'. fetchBatchConnections qids w = (Inr conns, w')"
    by (rule fetchBatchConnections_returns)
next
  let ?w1 = "snd (check_cache qids [] [] w)"
  let ?q = "batch_query (uncached_ids qids w)"
  assume a: "uncached_ids qids w \<noteq> [] \<and> isl (fst (querySparql ?q ?w1))"
  then obtain e w2 where q: "querySparql ?q ?w1 = (Inl e, w2)"
    by (cases "querySparql ?q ?w1") (auto simp: isl_def)
  from a have ne: "qids \<noteq> []"
    by (auto simp: uncached_ids_def)
  from a q ne have res: "fetchBatchConnections qids w = (Inr (cached_connections qids w), w2)"
    unfolding fetchBatchConnections_def
    by (subst check_cache_partition) (simp add: batch_query_def [symmetric])
  then show "fst (fetchBatchConnections qids w) = Inr (cached_connections qids w)"
    by simp
  from querySparql_requests [of ?q ?w1] q have "requests w2 = requests ?w1 @ [?q]"
    by simp
  with res show "requests (snd (fetchBatchConnections qids w)) = requests w @ [?q]"
    by (simp add: check_cache_requests)
next
  assume a: "uncached_ids qids w = []"
  show "fst (fetchBatchConnections qids w) = Inr (cached_connections qids w)"
  proof (cases "qids = []")
    case True
    then show ?thesis
      by (simp add: fetchBatchConnections_def cached_connections_def)
  next
    case False
    with a show ?thesis
      unfolding fetchBatchConnections_def
      by (subst check_cache_partition) simp
  qed
  show "requests (snd (fetchBatchConnections qids w)) = requests w"
  proof (cases "qids = []")
    case True
    then show ?thesis
      by (simp add: fetchBatchConnections_def)
  next
    case False
    with a show ?thesis
      unfolding fetchBatchConnections_def
      by (subst check_cache_partition) (simp add: check_cache_requests)
  qed
qed

theorem fetchBatchConnections_degrades_to_cache_witness:
  "fst (fetchBatchConnections [''Q1'', ''Q2''] cached_world) = Inr [born_in] \<and>
   requests (snd (fetchBatchConnections [''Q1'', ''Q2''] cached_world)) =
     [BatchQuery ''wd:Q2'' 2000] \<and>
   fst (fetchBatchConnections [''Q1''] cached_world) = Inr [born_in] \<and>
   requests (snd (fetchBatchConnections [''Q1''] cached_world)) = []"
proof -
  have fails: "uncached_ids [''Q1'', ''Q2''] cached_world \<noteq> [] \<and>
      isl (fst (querySparql (batch_query (uncached_ids [''Q1'', ''Q2''] cached_world))
                  (snd (check_cache [''Q1'', ''Q2''] [] [] cached_world))))"
    by code_simp
  have all_cached: "uncached_ids [''Q1''] cached_world = []"
    by code_simp
  have v1: "cached_connections [''Q1'', ''Q2''] cached_world = [born_in]"
    by code_simp
  have v2: "requests cached_world @ [batch_query (uncached_ids [''Q1'', ''Q2''] cached_world)] =
            [BatchQuery ''wd:Q2'' 2000]"
    by code_simp
  have v3: "cached_connections [''Q1''] cached_world = [born_in]"
    by code_simp
  have v4: "requests cached_world = []"
    by code_simp
  note t1 = fetchBatchConnections_degrades_to_cache [of "[''Q1'', ''Q2'']" cached_world]
  note t2 = fetchBatchConnections_degrades_to_cache [of "[''Q1'']" cached_world]
  from t1 [THEN conjunct2, THEN conjunct1, THEN mp, OF fails] v1 v2
  have "fst (fetchBatchConnections [''Q1'', ''Q2''] cached_world) = Inr [born_in] \<and>
        requests (snd (fetchBatchConnections [''Q1'', ''Q2''] cached_world)) =
          [BatchQuery ''wd:Q2'' 2000]"
    by simp
  moreover
  from t2 [THEN conjunct2, THEN conjunct2, THEN mp, OF all_cached] v3 v4
  have "fst (fetchBatchConnections [''Q1''] cached_world) = Inr [born_in] \<and>
        requests (snd (fetchBatchConnections [''Q1''] cached_world)) = []"
    by simp
  ultimately show ?thesis
    by blast
qed


section \<open>The history of fetches is only written by the batch loop\<close>

lemma fetchLog_Date_now [simp]: "fetchLog (snd (Date_now w)) = fetchLog w"
  by (simp add: Date_now_def)

lemma fetchLog_evictExpired [simp]: "fetchLog (evictExpired w) = fetchLog w"
  by (simp add: evictExpired_def Date_now_def)

lemma fetchLog_clearAllCaches [simp]: "fetchLog (clearAllCaches w) = fetchLog w"
  by (simp add: clearAllCaches_def)

lemma fetchLog_setInStorage:
  assumes upd: "\<And>f w. fetchLog (upd f w) = fetchLog w"
  shows "fetchLog (setInStorage upd key d ttl w) = fetchLog w"
proof -
  have si: "\<And>v w0. fetchLog (snd (setItem upd key v w0)) = fetchLog w0"
    by (simp add: setItem_def Let_def upd)
  define w1 where "w1 = w\<lparr>clockReads := clockReads w + 1\<rparr>"
  define entry where "entry = \<lparr>entry_data = d, entry_expires = clock w (clockReads w) + ttl\<rparr>"
  obtain r2 w2 where s1: "setItem upd key (Parsed entry) w1 = (r2, w2)"
    by (cases "setItem upd key (Parsed entry) w1")
  with si [of "Parsed entry" w1] have l2: "fetchLog w2 = fetchLog w"
    by (simp add: w1_def)
  obtain r3 w3 where s2: "setItem upd key (Parsed entry) (evictExpired w2) = (r3, w3)"
    by (cases "setItem upd key (Parsed entry) (evictExpired w2)")
  with si [of "Parsed entry" "evictExpired w2"] l2
  have l3: "fetchLog w3 = fetchLog w"
    by simp
  from si [of "Parsed entry" "clearAllCaches w3"] l3
  have l4: "fetchLog (snd (setItem upd key (Parsed entry) (clearAllCaches w3))) = fetchLog w"
    by simp
  have "setInStorage upd key d ttl w =
        (case r2 of Inr _ \<Rightarrow> w2
         | Inl _ \<Rightarrow> (case r3 of Inr _ \<Rightarrow> w3
                    | Inl _ \<Rightarrow> snd (setItem upd key (Parsed entry) (clearAllCaches w3))))"
    using s1 s2
    by (simp add: setInStorage_def Date_now_def Let_def w1_def entry_def split: sum.splits)
  with l2 l3 l4 show ?thesis
    by (simp split: sum.splits)
qed

lemma fetchLog_setCachedQid [simp]: "fetchLog (setCachedQid name qid w) = fetchLog w"
  unfolding setCachedQid_def by (rule fetchLog_setInStorage) simp

lemma fetchLog_setCachedConnections [simp]:
  "fetchLog (setCachedConnections qid conns w) = fetchLog w"
  unfolding setCachedConnections_def by (rule fetchLog_setInStorage) simp

lemma fetchLog_getCachedQid [simp]: "fetchLog (snd (getCachedQid name w)) = fetchLog w"
  by (simp add: getCachedQid_def getFromStorage_def Date_now_def Let_def
           split: option.splits item.splits prod.splits)

lemma fetchLog_getCachedConnections [simp]:
  "fetchLog (snd (getCachedConnections qid w)) = fetchLog w"
  by (simp add: getCachedConnections_def getFromStorage_def Date_now_def Let_def
           split: option.splits item.splits)

lemma fetchLog_querySparql [simp]: "fetchLog (snd (querySparql q w)) = fetchLog w"
  by (simp add: querySparql_def Let_def split: response.splits option.splits)

lemma fetchLog_getWikidataId [simp]: "fetchLog (snd (getWikidataId name w)) = fetchLog w"
proof -
  obtain c w1 where g: "getCachedQid name w = (c, w1)"
    by (cases "getCachedQid name w")
  with fetchLog_getCachedQid [of name w] have l1: "fetchLog w1 = fetchLog w"
    by simp
  show ?thesis
  proof (cases c)
    case (Some cached)
    with g l1 show ?thesis by (simp add: getWikidataId_def)
  next
    case None
    show ?thesis
    proof (cases "sanitizeEntityName name")
      case (Inl e)
      with g None l1 show ?thesis by (simp add: getWikidataId_def)
    next
      case (Inr sn)
      obtain r w2 where q: "querySparql (QidLookup sn) w1 = (r, w2)"
        by (cases "querySparql (QidLookup sn) w1")
      with fetchLog_querySparql [of "QidLookup sn" w1] l1 have "fetchLog w2 = fetchLog w"
        by simp
      with g None Inr q show ?thesis
        by (simp add: getWikidataId_def Let_def split: sum.splits list.splits option.splits)
    qed
  qed
qed

lemma fetchLog_check_cache [simp]: "fetchLog (snd (check_cache qids u c w)) = fetchLog w"
proof (induction qids arbitrary: u c w)
  case Nil
  show ?case by simp
next
  case (Cons qid qids)
  obtain r w1 where g: "getCachedConnections qid w = (r, w1)"
    by (cases "getCachedConnections qid w")
  with fetchLog_getCachedConnections [of qid w] have "fetchLog w1 = fetchLog w"
    by simp
  with g Cons.IH show ?case
    by (cases r) simp_all
qed

lemma fetchLog_cache_writes [simp]:
  "fetchLog (foldl (\<lambda>w' (qid, conns). setCachedConnections qid conns w') w kvs) = fetchLog w"
  by (induction kvs arbitrary: w) (simp_all add: case_prod_beta)

lemma fetchLog_fetchBatchConnections [simp]:
  "fetchLog (snd (fetchBatchConnections qids w)) = fetchLog w"
proof -
  obtain u c w1 where cc: "check_cache qids [] [] w = ((u, c), w1)"
    by (cases "check_cache qids [] [] w") auto
  with fetchLog_check_cache [of qids "[]" "[]" w] have l1: "fetchLog w1 = fetchLog w"
    by simp
  obtain r w2 where q: "querySparql (batch_query u) w1 = (r, w2)"
    by (cases "querySparql (batch_query u) w1")
  with fetchLog_querySparql [of "batch_query u" w1] l1 have l2: "fetchLog w2 = fetchLog w"
    by simp
  from cc l1 q l2 show ?thesis
    by (simp add: fetchBatchConnections_def Let_def batch_query_def [symmetric]
             split: sum.splits prod.splits)
qed

lemma fetchLog_shuffle_loop [simp]: "fetchLog (snd (shuffle_loop i a w)) = fetchLog w"
  by (induction i arbitrary: a w) (simp_all add: random_index_def)

lemma fetchLog_select_layer [simp]: "fetchLog (snd (select_layer m st w)) = fetchLog w"
proof -
  have "\<And>xs sh w1. shuffleArray xs w = (sh, w1) \<Longrightarrow> fetchLog w1 = fetchLog w"
    unfolding shuffleArray_def by (metis fetchLog_shuffle_loop snd_conv)
  then show ?thesis
    by (auto simp: select_layer_def Let_def split: prod.splits)
qed


section \<open>Nodes and edges of the builder\<close>

lemma alist_update_set:
  "kv \<in> set (AList.update k v al) \<Longrightarrow> kv = (k, v) \<or> kv \<in> set al"
  by (induction al) (auto split: if_splits)

lemma nodes_ok_update:
  assumes "nodes_ok ns" and "node_id v = k"
  shows "nodes_ok (AList.update k v ns)"
  unfolding nodes_ok_def
proof (intro conjI ballI)
  from assms show "distinct (map fst (AList.update k v ns))"
    by (simp add: nodes_ok_def distinct_update)
next
  fix kv
  assume "kv \<in> set (AList.update k v ns)"
  then have "kv = (k, v) \<or> kv \<in> set ns"
    by (rule alist_update_set)
  with assms show "node_id (snd kv) = fst kv"
    by (auto simp: nodes_ok_def)
qed

lemma nodes_ok_lookup: "nodes_ok ns \<Longrightarrow> map_of ns k = Some n \<Longrightarrow> node_id n = k"
  by (auto simp: nodes_ok_def dest!: map_of_SomeD)

lemma process_qids_nodes_ok:
  "nodes_ok (st_nodes st) \<Longrightarrow> nodes_ok (st_nodes (process_qids qids st))"
  by (induction qids arbitrary: st) (simp_all add: nodes_ok_update)

lemma process_qids_edges [simp]:
  "st_edges (process_qids qids st) = st_edges st \<and>
   st_edgeIds (process_qids qids st) = st_edgeIds st"
  by (induction qids arbitrary: st) simp_all

lemma resolve_names_invariants:
  "resolve_names names st w = (Inr st', w') \<Longrightarrow> nodes_ok (st_nodes st) \<Longrightarrow>
   nodes_ok (st_nodes st') \<and> st_edges st' = st_edges st \<and> st_edgeIds st' = st_edgeIds st \<and>
   fetchLog w' = fetchLog w"
proof (induction names arbitrary: st w)
  case Nil
  then show ?case by simp
next
  case (Cons name names)
  obtain r w1 where g: "getWikidataId name w = (r, w1)"
    by (cases "getWikidataId name w")
  with fetchLog_getWikidataId [of name w] have l: "fetchLog w1 = fetchLog w"
    by simp
  from Cons.prems(1) g obtain q where r: "r = Inr q"
    by (cases r) auto
  show ?case
  proof (cases "q = None \<or> q = Some []")
    case True
    with Cons.prems g r have "resolve_names names st w1 = (Inr st', w')"
      by auto
    from Cons.IH [OF this Cons.prems(2)] l show ?thesis
      by simp
  next
    case False
    then obtain qid where q: "q = Some qid" "qid \<noteq> []"
      by auto
    show ?thesis
    proof (cases "map_of (st_nodes st) qid")
      case None
      let ?st1 = "st\<lparr>st_initialEntityIds := insert qid (st_initialEntityIds st),
                       st_nodes := AList.update qid
                         \<lparr>node_id = qid, node_label = name, node_group = ''concept'',
                          node_shape = ''dot'', node_image = Some PLACEHOLDER_IMG, node_size = 40,
                          node_title = ''Type: Initial Search Entity'',
                          node_isInitialEntity = Some True\<rparr> (st_nodes st),
                       st_currentLayerIds := st_currentLayerIds st @ [qid]\<rparr>"
      from Cons.prems g r q None have run: "resolve_names names ?st1 w1 = (Inr st', w')"
        by simp
      have "nodes_ok (st_nodes ?st1)"
        using Cons.prems(2) by (simp add: nodes_ok_update)
      from Cons.IH [OF run this] l show ?thesis
        by simp
    next
      case (Some node)
      let ?st1 = "st\<lparr>st_nodes := AList.update qid (node\<lparr>node_label := name\<rparr>) (st_nodes st)\<rparr>"
      from Cons.prems g r q Some have run: "resolve_names names ?st1 w1 = (Inr st', w')"
        by simp
      have "nodes_ok (st_nodes ?st1)"
        using Cons.prems(2) nodes_ok_lookup [OF Cons.prems(2) Some]
        by (simp add: nodes_ok_update)
      from Cons.IH [OF run this] l show ?thesis
        by simp
    qed
  qed
qed

text \<open>One connection: the state after its node and its edge have been handled.\<close>

lemma process_connections_invariants:
  "nodes_ok (st_nodes st) \<Longrightarrow> edges_ok st \<Longrightarrow>
   nodes_ok (st_nodes (fst (process_connections cs st nl))) \<and>
   edges_ok (fst (process_connections cs st nl)) \<and>
   st_edgeIds st \<subseteq> st_edgeIds (fst (process_connections cs st nl)) \<and>
   (\<forall>c \<in> set cs. connection_edge_id c \<in> st_edgeIds (fst (process_connections cs st nl)))"
proof (induction cs arbitrary: st nl)
  case Nil
  then show ?case by simp
next
  case (Cons conn cs)
  define known where "known = (map_of (st_nodes st) (conn_target conn) \<noteq> None)"
  define st1 where "st1 = (if \<not> known
      then st\<lparr>st_nodes := AList.update (conn_target conn) (node_of_connection conn) (st_nodes st)\<rparr>
      else st)"
  define nl1 where "nl1 = (if \<not> known then nl @ [conn_target conn] else nl)"
  define edgeId where "edgeId = edge_id_of (conn_source conn) (conn_target conn) (conn_label conn)"
  define st2 where "st2 = (if edgeId \<notin> st_edgeIds st1
      then st1\<lparr>st_edgeIds := insert edgeId (st_edgeIds st1),
               st_edges := st_edges st1 @
                 [\<lparr>edge_id = edgeId, edge_from = conn_source conn, edge_to = conn_target conn,
                   edge_label = conn_label conn, edge_arrows = ''to'', edge_hidden = None,
                   edge_category = Some (categorizeEdge (conn_label conn))\<rparr>]\<rparr>
      else st1)"
  have step: "process_connections (conn # cs) st nl = process_connections cs st2 nl1"
    by (simp add: Let_def known_def st1_def nl1_def edgeId_def st2_def)
  have n1: "nodes_ok (st_nodes st1)"
    using Cons.prems(1) by (simp add: st1_def nodes_ok_update node_of_connection_def Let_def)
  then have n2: "nodes_ok (st_nodes st2)"
    by (simp add: st2_def)
  have e1: "edges_ok st1"
    using Cons.prems(2) by (simp add: st1_def edges_ok_def)
  have e2: "edges_ok st2"
    using e1 by (auto simp: st2_def edges_ok_def edgeId_def)
  have sub: "st_edgeIds st \<subseteq> st_edgeIds st2"
    by (auto simp: st2_def st1_def)
  have here: "connection_edge_id conn \<in> st_edgeIds st2"
    by (simp add: st2_def connection_edge_id_def edgeId_def)
  from Cons.IH [OF n2 e2, of nl1] sub here show ?case
    unfolding step by auto
qed

lemma process_connections_keeps_known:
  "map_of (st_nodes st) k = Some n \<Longrightarrow>
   map_of (st_nodes (fst (process_connections cs st nl))) k = Some n"
proof (induction cs arbitrary: st nl)
  case Nil
  then show ?case by simp
next
  case (Cons conn cs)
  show ?case
  proof (cases "map_of (st_nodes st) (conn_target conn) = None")
    case True
    with Cons.prems have "k \<noteq> conn_target conn"
      by auto
    with Cons.prems True show ?thesis
      by (simp add: Let_def Cons.IH update_conv')
  next
    case False
    with Cons.prems show ?thesis
      by (simp add: Let_def Cons.IH)
  qed
qed


declare fetch_batches.simps [simp del]

declare layer_loop.simps [simp del]

lemma fetch_batches_log:
  "fetch_batches level tp i acc w = (Inr res, w') \<Longrightarrow>
   \<exists>new. fetchLog w' = fetchLog w @ new \<and> res = acc @ concat (map snd new)"
proof (induction level tp i acc w rule: fetch_batches.induct)
  case (1 level tp i acc w)
  show ?case
  proof (cases "i < length tp")
    case False
    with "1.prems" have "res = acc" "w' = w"
      by (simp_all add: fetch_batches.simps [of level tp i])
    then show ?thesis by simp
  next
    case True
    define x where "x = batch_size (getDepthConfig level)"
    define xa where "xa = take x (drop i tp)"
    obtain xb y where f: "fetchBatchConnections xa w = (xb, y)"
      by (cases "fetchBatchConnections xa w")
    with fetchBatchConnections_returns [of xa w] obtain b where xb: "xb = Inr b"
      by auto
    from f fetchLog_fetchBatchConnections [of xa w] have l: "fetchLog y = fetchLog w"
      by simp
    let ?y = "y\<lparr>fetchLog := fetchLog y @ [(xa, b)]\<rparr>"
    from "1.prems" True f xb
    have run: "fetch_batches level tp (i + x) (acc @ b) ?y = (Inr res, w')"
      by (simp add: fetch_batches.simps [of level tp i] Let_def x_def xa_def)
    from True have nn: "\<not> \<not> i < length tp"
      by simp
    from "1.IH" [OF x_def nn xa_def f [symmetric] xb run]
    obtain new where "fetchLog w' = fetchLog ?y @ new" "res = (acc @ b) @ concat (map snd new)"
      by blast
    with l have "fetchLog w' = fetchLog w @ ((xa, b) # new) \<and>
                 res = acc @ concat (map snd ((xa, b) # new))"
      by simp
    then show ?thesis by blast
  qed
qed

lemma layer_loop_invariants:
  "layer_loop depth cd st w = (Inr st', w') \<Longrightarrow> nodes_ok (st_nodes st) \<Longrightarrow> edges_ok st \<Longrightarrow>
   nodes_ok (st_nodes st') \<and> edges_ok st' \<and> st_edgeIds st \<subseteq> st_edgeIds st' \<and>
   (\<exists>new. fetchLog w' = fetchLog w @ new \<and>
      (\<forall>bc \<in> set new. \<forall>c \<in> set (snd bc). connection_edge_id c \<in> st_edgeIds st'))"
proof (induction depth cd st w rule: layer_loop.induct)
  case (1 depth cd st w)
  obtain x y where sel:
    "select_layer (max_nodes_per_layer (getDepthConfig (cd + 1))) st w = (x, y)"
    by (cases "select_layer (max_nodes_per_layer (getDepthConfig (cd + 1))) st w")
  with fetchLog_select_layer [of "max_nodes_per_layer (getDepthConfig (cd + 1))" st w]
  have ly: "fetchLog y = fetchLog w"
    by (metis snd_conv)
  show ?case
  proof (cases "cd < depth \<and> length (st_currentLayerIds st) \<noteq> 0 \<and> length x \<noteq> 0")
    case False
    with "1.prems"(1) sel have "st' = st" "w' = w \<or> w' = y"
      by (auto simp: layer_loop.simps [of depth cd] split: if_splits)
    with "1.prems" ly show ?thesis
      by auto
  next
    case True
    obtain xa ya where fb: "fetch_batches (cd + 1) x 0 [] y = (xa, ya)"
      by (cases "fetch_batches (cd + 1) x 0 [] y")
    with "1.prems"(1) sel True obtain b where xa: "xa = Inr b"
      by (cases xa) (auto simp: layer_loop.simps [of depth cd])
    obtain xaa yb where pc: "process_connections b st [] = (xaa, yb)"
      by (cases "process_connections b st []")
    let ?st2 = "xaa\<lparr>st_processedIds := st_processedIds xaa \<union> set x, st_currentLayerIds := yb\<rparr>"
    from "1.prems"(1) sel True fb xa pc
    have run: "layer_loop depth (cd + 1) ?st2 ya = (Inr st', w')"
      by (simp add: layer_loop.simps [of depth cd])
    from process_connections_invariants [OF "1.prems"(2,3), of b "[]"] pc
    have inv: "nodes_ok (st_nodes xaa)" "edges_ok xaa" "st_edgeIds st \<subseteq> st_edgeIds xaa"
      "\<forall>c \<in> set b. connection_edge_id c \<in> st_edgeIds xaa"
      by simp_all
    then have inv2: "nodes_ok (st_nodes ?st2)" "edges_ok ?st2"
      by (simp_all add: edges_ok_def)
    from True have c1: "\<not> \<not> cd < depth" and c2: "length (st_currentLayerIds st) \<noteq> 0"
      and c3: "length x \<noteq> 0"
      by simp_all
    from "1.IH" [OF c1 c2 sel [symmetric] c3 fb [symmetric] xa pc [symmetric] run inv2]
    obtain new2 where r: "nodes_ok (st_nodes st')" "edges_ok st'" "st_edgeIds ?st2 \<subseteq> st_edgeIds st'"
      "fetchLog w' = fetchLog ya @ new2"
      "\<forall>bc \<in> set new2. \<forall>c \<in> set (snd bc). connection_edge_id c \<in> st_edgeIds st'"
      by blast
    from fetch_batches_log [OF fb [unfolded xa]] obtain new1
      where n1: "fetchLog ya = fetchLog y @ new1" "b = concat (map snd new1)"
      by auto
    from n1(2) inv(4) r(3)
    have "\<forall>bc \<in> set new1. \<forall>c \<in> set (snd bc). connection_edge_id c \<in> st_edgeIds st'"
      by auto
    with r(5) have "\<forall>bc \<in> set (new1 @ new2). \<forall>c \<in> set (snd bc).
                      connection_edge_id c \<in> st_edgeIds st'"
      by auto
    moreover from r(4) n1(1) ly have "fetchLog w' = fetchLog w @ (new1 @ new2)"
      by simp
    moreover from inv(3) r(3) have "st_edgeIds st \<subseteq> st_edgeIds st'"
      by auto
    ultimately show ?thesis
      using r(1,2) by blast
  qed
qed

lemma distinct_map_insort_key:
  "distinct (map g (insort_key f x xs)) = (g x \<notin> g ` set xs \<and> distinct (map g xs))"
  by (induction xs) (auto simp: set_insort_key)

lemma distinct_map_sort_key: "distinct (map g (sort_key f xs)) = distinct (map g xs)"
  by (induction xs) (simp_all add: distinct_map_insort_key)

lemma own_entries_set: "set (own_entries obj) = set obj"
  by (auto simp: own_entries_def)

lemma own_entries_distinct:
  assumes "distinct (map fst obj)"
  shows "distinct (map fst (own_entries obj))"
proof -
  have "distinct (map fst (filter (\<lambda>kv. is_array_index (fst kv)) obj))"
    and "distinct (map fst (filter (\<lambda>kv. \<not> is_array_index (fst kv)) obj))"
    using assms by (simp_all add: distinct_map_filter)
  then show ?thesis
    by (auto simp: own_entries_def distinct_map_sort_key)
qed

lemma nodes_ok_values:
  assumes "nodes_ok ns"
  shows "distinct (map node_id (map snd (own_entries ns)))"
proof -
  have "\<forall>kv \<in> set (own_entries ns). node_id (snd kv) = fst kv"
    using assms by (simp add: nodes_ok_def own_entries_set)
  then have "map (node_id \<circ> snd) (own_entries ns) = map fst (own_entries ns)"
    by (intro map_ext) simp
  moreover have "distinct (map fst (own_entries ns))"
    using own_entries_distinct [of ns] assms by (simp add: nodes_ok_def)
  ultimately show ?thesis
    by (metis map_map)
qed

text \<open>What a successful run of \<open>generateGraph\<close> went through.\<close>

lemma generateGraph_run:
  assumes "generateGraph request w = (Inr g, w')"
  obtains names qids depth st1 w1 st2
  where "resolve_names names (process_qids qids initial_state) w = (Inr st1, w1)"
    and "layer_loop depth 0 st1 w1 = (Inr st2, w')"
    and "g = \<lparr>gd_nodes = map snd (own_entries (st_nodes st2)), gd_edges = st_edges st2\<rparr>"
  using assms
  by (auto simp: generateGraph_def split: sum.splits if_splits prod.splits)

lemma generateGraph_invariants:
  assumes "generateGraph request w = (Inr g, w')"
  obtains st2 new
  where "g = \<lparr>gd_nodes = map snd (own_entries (st_nodes st2)), gd_edges = st_edges st2\<rparr>"
    and "nodes_ok (st_nodes st2)" and "edges_ok st2"
    and "fetchLog w' = fetchLog w @ new"
    and "\<forall>bc \<in> set new. \<forall>c \<in> set (snd bc). connection_edge_id c \<in> st_edgeIds st2"
proof -
  from assms obtain names qids depth st1 w1 st2
    where rn: "resolve_names names (process_qids qids initial_state) w = (Inr st1, w1)"
      and ll: "layer_loop depth 0 st1 w1 = (Inr st2, w')"
      and g: "g = \<lparr>gd_nodes = map snd (own_entries (st_nodes st2)), gd_edges = st_edges st2\<rparr>"
    by (rule generateGraph_run)
  have "nodes_ok (st_nodes initial_state)"
    by (simp add: nodes_ok_def initial_state_def)
  then have n0: "nodes_ok (st_nodes (process_qids qids initial_state))"
    by (rule process_qids_nodes_ok)
  from resolve_names_invariants [OF rn n0]
  have n1: "nodes_ok (st_nodes st1)" and e1: "edges_ok st1" and l1: "fetchLog w1 = fetchLog w"
    by (simp_all add: edges_ok_def initial_state_def)
  from layer_loop_invariants [OF ll n1 e1] l1 obtain new
    where "nodes_ok (st_nodes st2)" "edges_ok st2" "fetchLog w' = fetchLog w @ new"
      "\<forall>bc \<in> set new. \<forall>c \<in> set (snd bc). connection_edge_id c \<in> st_edgeIds st2"
    by auto
  with g show ?thesis
    by (rule that)
qed


section \<open>Every identifier of a duplicate-free seed layer is fetched once\<close>

lemma shuffle_loop_permutes:
  "i < length a \<Longrightarrow>
   set (fst (shuffle_loop i a w)) = set a \<and>
   distinct (fst (shuffle_loop i a w)) = distinct a"
proof (induction i arbitrary: a w)
  case 0
  show ?case by simp
next
  case (Suc i)
  define j where "j = random w (randomReads w) mod (Suc i + 1)"
  define a' where "a' = a[Suc i := a ! j, j := a ! Suc i]"
  have "j < Suc i + 1"
    unfolding j_def by (rule mod_less_divisor) simp
  with Suc.prems have j: "j < length a"
    by simp
  from Suc.prems j have "set a' = set a" and "distinct a' = distinct a"
    unfolding a'_def by (simp_all add: set_swap distinct_swap)
  moreover from Suc.prems have "i < length a'"
    by (simp add: a'_def)
  moreover have "shuffle_loop (Suc i) a w =
                 shuffle_loop i a' (w\<lparr>randomReads := randomReads w + 1\<rparr>)"
    by (simp add: random_index_def j_def a'_def)
  ultimately show ?case
    using Suc.IH [of a' "w\<lparr>randomReads := randomReads w + 1\<rparr>"] by simp
qed

lemma shuffleArray_permutes:
  "set (fst (shuffleArray arr w)) = set arr \<and> distinct (fst (shuffleArray arr w)) = distinct arr"
proof (cases "arr = []")
  case True
  then show ?thesis by (simp add: shuffleArray_def)
next
  case False
  then have "length arr - 1 < length arr"
    by simp
  then show ?thesis
    unfolding shuffleArray_def by (rule shuffle_loop_permutes)
qed

lemma select_layer_selects:
  assumes "select_layer m st w = (tp, w1)" and "distinct (st_currentLayerIds st)"
  shows "distinct tp \<and> set tp \<inter> st_processedIds st = {}"
proof -
  define tp0 where "tp0 = filter (\<lambda>i. i \<notin> st_processedIds st) (st_currentLayerIds st)"
  from assms(2) have d0: "distinct tp0" and s0: "set tp0 \<inter> st_processedIds st = {}"
    by (auto simp: tp0_def)
  show ?thesis
  proof (cases "length tp0 > m")
    case False
    with assms(1) have "tp = tp0"
      by (simp add: select_layer_def tp0_def Let_def)
    with d0 s0 show ?thesis by simp
  next
    case True
    with assms(1) have "tp = take m (fst (shuffleArray tp0 w))"
      by (auto simp: select_layer_def tp0_def Let_def split: prod.splits)
    moreover from shuffleArray_permutes [of tp0 w] d0
    have "distinct (fst (shuffleArray tp0 w))" "set (fst (shuffleArray tp0 w)) = set tp0"
      by simp_all
    ultimately show ?thesis
      using s0 by (auto dest: in_set_takeD)
  qed
qed

lemma fetch_batches_partition:
  "fetch_batches level tp i acc w = (Inr res, w') \<Longrightarrow>
   \<exists>new. fetchLog w' = fetchLog w @ new \<and> concat (map fst new) = drop i tp"
proof (induction level tp i acc w rule: fetch_batches.induct)
  case (1 level tp i acc w)
  show ?case
  proof (cases "i < length tp")
    case False
    with "1.prems" have "w' = w"
      by (simp add: fetch_batches.simps [of level tp i])
    with False show ?thesis by simp
  next
    case True
    define x where "x = batch_size (getDepthConfig level)"
    define xa where "xa = take x (drop i tp)"
    obtain xb y where f: "fetchBatchConnections xa w = (xb, y)"
      by (cases "fetchBatchConnections xa w")
    with fetchBatchConnections_returns [of xa w] obtain b where xb: "xb = Inr b"
      by auto
    from f fetchLog_fetchBatchConnections [of xa w] have l: "fetchLog y = fetchLog w"
      by simp
    let ?y = "y\<lparr>fetchLog := fetchLog y @ [(xa, b)]\<rparr>"
    from "1.prems" True f xb
    have run: "fetch_batches level tp (i + x) (acc @ b) ?y = (Inr res, w')"
      by (simp add: fetch_batches.simps [of level tp i] Let_def x_def xa_def)
    from True have nn: "\<not> \<not> i < length tp"
      by simp
    from "1.IH" [OF x_def nn xa_def f [symmetric] xb run]
    obtain new where n: "fetchLog w' = fetchLog ?y @ new" "concat (map fst new) = drop (i + x) tp"
      by blast
    have "take x (drop i tp) @ drop (i + x) tp = drop i tp"
      by (metis add.commute append_take_drop_id drop_drop)
    with n l have "fetchLog w' = fetchLog w @ ((xa, b) # new) \<and>
                   concat (map fst ((xa, b) # new)) = drop i tp"
      by (simp add: xa_def)
    then show ?thesis by blast
  qed
qed

lemma process_connections_processed [simp]:
  "st_processedIds (fst (process_connections cs st nl)) = st_processedIds st"
  by (induction cs arbitrary: st nl) (simp_all add: Let_def)

lemma process_connections_next_distinct:
  "distinct nl \<Longrightarrow> set nl \<subseteq> fst ` set (st_nodes st) \<Longrightarrow>
   distinct (snd (process_connections cs st nl)) \<and>
   set (snd (process_connections cs st nl)) \<subseteq> fst ` set (st_nodes (fst (process_connections cs st nl)))"
proof (induction cs arbitrary: st nl)
  case Nil
  then show ?case by simp
next
  case (Cons conn cs)
  define known where "known = (map_of (st_nodes st) (conn_target conn) \<noteq> None)"
  define st1 where "st1 = (if \<not> known
      then st\<lparr>st_nodes := AList.update (conn_target conn) (node_of_connection conn) (st_nodes st)\<rparr>
      else st)"
  define nl1 where "nl1 = (if \<not> known then nl @ [conn_target conn] else nl)"
  obtain st2 where step: "process_connections (conn # cs) st nl = process_connections cs st2 nl1"
    and nodes2: "st_nodes st2 = st_nodes st1"
    by (simp add: Let_def known_def st1_def nl1_def)
  have "\<not> known \<Longrightarrow> conn_target conn \<notin> fst ` set (st_nodes st)"
    by (simp add: known_def map_of_eq_None_iff)
  with Cons.prems have d: "distinct nl1"
    by (auto simp: nl1_def)
  have "set nl1 \<subseteq> fst ` set (st_nodes st1)"
    using Cons.prems(2) by (auto simp: nl1_def st1_def dom_update)
  with nodes2 have s: "set nl1 \<subseteq> fst ` set (st_nodes st2)"
    by simp
  from Cons.IH [OF d s] show ?case
    unfolding step .
qed

lemma layer_loop_fetches_once:
  "layer_loop depth cd st w = (Inr st', w') \<Longrightarrow> distinct (st_currentLayerIds st) \<Longrightarrow>
   \<exists>new. fetchLog w' = fetchLog w @ new \<and> distinct (concat (map fst new)) \<and>
         set (concat (map fst new)) \<inter> st_processedIds st = {}"
proof (induction depth cd st w rule: layer_loop.induct)
  case (1 depth cd st w)
  obtain x y where sel:
    "select_layer (max_nodes_per_layer (getDepthConfig (cd + 1))) st w = (x, y)"
    by (cases "select_layer (max_nodes_per_layer (getDepthConfig (cd + 1))) st w")
  with fetchLog_select_layer [of "max_nodes_per_layer (getDepthConfig (cd + 1))" st w]
  have ly: "fetchLog y = fetchLog w"
    by (metis snd_conv)
  from select_layer_selects [OF sel "1.prems"(2)]
  have dx: "distinct x" and px: "set x \<inter> st_processedIds st = {}"
    by simp_all
  show ?case
  proof (cases "cd < depth \<and> length (st_currentLayerIds st) \<noteq> 0 \<and> length x \<noteq> 0")
    case False
    with "1.prems"(1) sel have "w' = w \<or> w' = y"
      by (auto simp: layer_loop.simps [of depth cd] split: if_splits)
    with ly have "fetchLog w' = fetchLog w @ []"
      by auto
    then show ?thesis
      by (intro exI [of _ "[]"]) simp
  next
    case True
    obtain xa ya where fb: "fetch_batches (cd + 1) x 0 [] y = (xa, ya)"
      by (cases "fetch_batches (cd + 1) x 0 [] y")
    with "1.prems"(1) sel True obtain b where xa: "xa = Inr b"
      by (cases xa) (auto simp: layer_loop.simps [of depth cd])
    obtain xaa yb where pc: "process_connections b st [] = (xaa, yb)"
      by (cases "process_connections b st []")
    let ?st2 = "xaa\<lparr>st_processedIds := st_processedIds xaa \<union> set x, st_currentLayerIds := yb\<rparr>"
    from "1.prems"(1) sel True fb xa pc
    have run: "layer_loop depth (cd + 1) ?st2 ya = (Inr st', w')"
      by (simp add: layer_loop.simps [of depth cd])
    from process_connections_next_distinct [of "[]" st b] pc have dn: "distinct yb"
      by simp
    from process_connections_processed [of b st "[]"] pc
    have pr: "st_processedIds xaa = st_processedIds st"
      by simp
    from True have c1: "\<not> \<not> cd < depth" and c2: "length (st_currentLayerIds st) \<noteq> 0"
      and c3: "length x \<noteq> 0"
      by simp_all
    from dn have dn2: "distinct (st_currentLayerIds ?st2)"
      by simp
    from "1.IH" [OF c1 c2 sel [symmetric] c3 fb [symmetric] xa pc [symmetric] run dn2] pr
    obtain new2 where r: "fetchLog w' = fetchLog ya @ new2" "distinct (concat (map fst new2))"
      "set (concat (map fst new2)) \<inter> (st_processedIds st \<union> set x) = {}"
      by auto
    from fetch_batches_partition [OF fb [unfolded xa]] obtain new1
      where n1: "fetchLog ya = fetchLog y @ new1" "concat (map fst new1) = x"
      by auto
    from r n1 ly have "fetchLog w' = fetchLog w @ (new1 @ new2)"
      by simp
    moreover from r n1 dx have "distinct (concat (map fst (new1 @ new2)))"
      by auto
    moreover from r n1 px have "set (concat (map fst (new1 @ new2))) \<inter> st_processedIds st = {}"
      by auto
    ultimately show ?thesis
      by blast
  qed
qed

lemma process_qids_layer:
  "st_currentLayerIds (process_qids qids st) = st_currentLayerIds st @ qids \<and>
   fst ` set (st_nodes (process_qids qids st)) = fst ` set (st_nodes st) \<union> set qids"
  by (induction qids arbitrary: st) (auto simp: dom_update)

lemma resolve_names_layer:
  "resolve_names names st w = (Inr st', w') \<Longrightarrow> distinct (st_currentLayerIds st) \<Longrightarrow>
   set (st_currentLayerIds st) \<subseteq> fst ` set (st_nodes st) \<Longrightarrow>
   distinct (st_currentLayerIds st')"
proof (induction names arbitrary: st w)
  case Nil
  then show ?case by simp
next
  case (Cons name names)
  obtain r w1 where g: "getWikidataId name w = (r, w1)"
    by (cases "getWikidataId name w")
  from Cons.prems(1) g obtain q where r: "r = Inr q"
    by (cases r) auto
  show ?case
  proof (cases "q = None \<or> q = Some []")
    case True
    with Cons.prems g r have "resolve_names names st w1 = (Inr st', w')"
      by auto
    from Cons.IH [OF this Cons.prems(2,3)] show ?thesis .
  next
    case False
    then obtain qid where q: "q = Some qid" "qid \<noteq> []"
      by auto
    show ?thesis
    proof (cases "map_of (st_nodes st) qid")
      case None
      let ?st1 = "st\<lparr>st_initialEntityIds := insert qid (st_initialEntityIds st),
                       st_nodes := AList.update qid
                         \<lparr>node_id = qid, node_label = name, node_group = ''concept'',
                          node_shape = ''dot'', node_image = Some PLACEHOLDER_IMG, node_size = 40,
                          node_title = ''Type: Initial Search Entity'',
                          node_isInitialEntity = Some True\<rparr> (st_nodes st),
                       st_currentLayerIds := st_currentLayerIds st @ [qid]\<rparr>"
      from Cons.prems g r q None have run: "resolve_names names ?st1 w1 = (Inr st', w')"
        by simp
      from None have "qid \<notin> fst ` set (st_nodes st)"
        by (simp add: map_of_eq_None_iff)
      with Cons.prems(2,3) have "distinct (st_currentLayerIds ?st1)"
        and "set (st_currentLayerIds ?st1) \<subseteq> fst ` set (st_nodes ?st1)"
        by (auto simp: dom_update)
      with run show ?thesis
        by (rule Cons.IH)
    next
      case (Some node)
      let ?st1 = "st\<lparr>st_nodes := AList.update qid (node\<lparr>node_label := name\<rparr>) (st_nodes st)\<rparr>"
      from Cons.prems g r q Some have run: "resolve_names names ?st1 w1 = (Inr st', w')"
        by simp
      from Cons.prems(2,3) have "distinct (st_currentLayerIds ?st1)"
        and "set (st_currentLayerIds ?st1) \<subseteq> fst ` set (st_nodes ?st1)"
        by (auto simp: dom_update)
      with run show ?thesis
        by (rule Cons.IH)
    qed
  qed
qed

text \<open>
  When the sanitized identifiers of the request are pairwise different, the batches
  fetched during the run are duplicate-free and pairwise disjoint.
\<close>

lemma generateGraph_fetches_once:
  assumes run: "generateGraph request w = (Inr g, w')"
    and seeds: "\<And>rawQids qids. validate_optional_list (req_qids request) = Inr rawQids \<Longrightarrow>
                  sanitize_all rawQids = Inr qids \<Longrightarrow> distinct qids"
  shows "\<exists>new. fetchLog w' = fetchLog w @ new \<and> distinct (concat (map fst new))"
proof -
  from run obtain names rawQids qids depth st1 w1 st2
    where v: "validate_optional_list (req_qids request) = Inr rawQids"
      and sa: "sanitize_all rawQids = Inr qids"
      and rn: "resolve_names names (process_qids qids initial_state) w = (Inr st1, w1)"
      and ll: "layer_loop depth 0 st1 w1 = (Inr st2, w')"
    by (auto simp: generateGraph_def split: sum.splits if_splits prod.splits)
  from seeds [OF v sa] have "distinct qids" .
  with process_qids_layer [of qids initial_state]
  have "distinct (st_currentLayerIds (process_qids qids initial_state))"
    and "set (st_currentLayerIds (process_qids qids initial_state))
         \<subseteq> fst ` set (st_nodes (process_qids qids initial_state))"
    by (simp_all add: initial_state_def)
  with rn have "distinct (st_currentLayerIds st1)"
    by (rule resolve_names_layer)
  from layer_loop_fetches_once [OF ll this] obtain new
    where "fetchLog w' = fetchLog w1 @ new" "distinct (concat (map fst new))"
    by blast
  moreover have "nodes_ok (st_nodes (process_qids qids initial_state))"
    by (rule process_qids_nodes_ok) (simp add: nodes_ok_def initial_state_def)
  from resolve_names_invariants [OF rn this] have "fetchLog w1 = fetchLog w"
    by simp
  ultimately show ?thesis
    by auto
qed


lemma filter_unique:
  "distinct (map f xs) \<Longrightarrow> y \<in> f ` set xs \<Longrightarrow> length (filter (\<lambda>x. f x = y) xs) = 1"
proof (induction xs)
  case Nil
  then show ?case by simp
next
  case (Cons x xs)
  show ?case
  proof (cases "f x = y")
    case True
    with Cons.prems have "\<forall>z \<in> set xs. f z \<noteq> y"
      by (auto intro: rev_image_eqI)
    then have "filter (\<lambda>x. f x = y) xs = []"
      by (simp add: filter_empty_conv)
    with True show ?thesis by simp
  next
    case False
    with Cons show ?thesis by auto
  qed
qed

text \<open>
  C3. In the graph returned by \<open>generateGraph\<close> no two edges share an id, every id is the
  one derived from the edge's own source, target and label, and every connection that
  was fetched during the run, in whatever batch or layer and however often, has exactly
  one edge with the id derived from its triple.
\<close>

theorem generateGraph_edges_deduplicated:
  "generateGraph request w = (Inr g, w') \<Longrightarrow>
   distinct (map edge_id (gd_edges g)) \<and>
   (\<forall>e \<in> set (gd_edges g). edge_id e = edge_id_of (edge_from e) (edge_to e) (edge_label e)) \<and>
   (\<exists>new. fetchLog w' = fetchLog w @ new \<and>
      (\<forall>bc \<in> set new. \<forall>c \<in> set (snd bc). length (edges_for c (gd_edges g)) = 1))"
proof -
  assume "generateGraph request w = (Inr g, w')"
  then obtain st2 new
    where g: "g = \<lparr>gd_nodes = map snd (own_entries (st_nodes st2)), gd_edges = st_edges st2\<rparr>"
      and e: "edges_ok st2"
      and l: "fetchLog w' = fetchLog w @ new"
      and c: "\<forall>bc \<in> set new. \<forall>c \<in> set (snd bc). connection_edge_id c \<in> st_edgeIds st2"
    by (rule generateGraph_invariants)
  from e have d: "distinct (map edge_id (st_edges st2))"
    and ids: "st_edgeIds st2 = edge_id ` set (st_edges st2)"
    and f: "\<forall>e \<in> set (st_edges st2). edge_id e = edge_id_of (edge_from e) (edge_to e) (edge_label e)"
    by (simp_all add: edges_ok_def)
  have "\<forall>bc \<in> set new. \<forall>c \<in> set (snd bc). length (edges_for c (st_edges st2)) = 1"
    using c ids filter_unique [OF d] by (simp add: edges_for_def)
  with g d f l show ?thesis
    by auto
qed

theorem generateGraph_edges_deduplicated_witness:
  "fetchLog (snd (generateGraph seed_request twice_world)) =
     [([''Q42''], [instance_of, instance_of])] \<and>
   fst (generateGraph seed_request twice_world) =
     Inr \<lparr>gd_nodes = [seed_node, human_node], gd_edges = [instance_edge]\<rparr> \<and>
   distinct (map edge_id [instance_edge]) \<and>
   length (edges_for instance_of [instance_edge]) = 1"
proof -
  define g where "g = \<lparr>gd_nodes = [seed_node, human_node], gd_edges = [instance_edge]\<rparr>"
  define w' where "w' = snd (generateGraph seed_request twice_world)"
  have r: "fst (generateGraph seed_request twice_world) = Inr g"
    unfolding g_def by code_simp
  then have run: "generateGraph seed_request twice_world = (Inr g, w')"
    unfolding w'_def by (metis prod.collapse)
  have log: "fetchLog w' = [([''Q42''], [instance_of, instance_of])]"
    unfolding w'_def by code_simp
  have start: "fetchLog twice_world = []"
    by code_simp
  from generateGraph_edges_deduplicated [OF run] log start
  have "distinct (map edge_id (gd_edges g))"
    and "\<forall>bc \<in> set [([''Q42''], [instance_of, instance_of])].
           \<forall>c \<in> set (snd bc). length (edges_for c (gd_edges g)) = 1"
    by auto
  then have "distinct (map edge_id [instance_edge])"
    and "length (edges_for instance_of [instance_edge]) = 1"
    by (simp_all add: g_def)
  with r log show ?thesis
    unfolding g_def w'_def by (intro conjI)
qed

text \<open>
  C5 as stated fails for the connections of a layer. In a crawl of depth 2 from the seed
  \<open>Q42\<close>, the second layer fetches a connection whose target is the known node \<open>Q42\<close>
  and whose target label is \<open>Douglas Adams\<close>; the returned node keeps the label \<open>Q42\<close>.
\<close>

theorem generateGraph_keeps_label_counterexample:
  "fst (generateGraph two_layer_request relabel_world) =
     Inr \<lparr>gd_nodes = [seed_node, human_node], gd_edges = [instance_edge, has_instance_edge]\<rparr> \<and>
   fetchLog (snd (generateGraph two_layer_request relabel_world)) =
     [([''Q42''], [instance_of]), ([''Q5''], [has_instance])] \<and>
   conn_target has_instance = node_id seed_node \<and>
   conn_target_label has_instance = ''Douglas Adams'' \<and>
   node_label seed_node = ''Q42''"
  by code_simp

text \<open>
  C5, as the code has it. The returned node list has no two nodes with the same id. A
  name that resolves to an id that is already a node sets the label of that node to the
  name, and adds no node. A fetched connection whose target is already a node leaves
  that node as it is: its label is not updated.
\<close>

theorem generateGraph_nodes_unique:
  "(generateGraph request w = (Inr g, w') \<longrightarrow> distinct (map node_id (gd_nodes g))) \<and>
   (fst (getWikidataId name w) = Inr (Some qid) \<and> qid \<noteq> [] \<and>
    map_of (st_nodes st) qid = Some node \<longrightarrow>
      resolve_names (name # names) st w =
        resolve_names names
          (st\<lparr>st_nodes := AList.update qid (node\<lparr>node_label := name\<rparr>) (st_nodes st)\<rparr>)
          (snd (getWikidataId name w)) \<and>
      map fst (AList.update qid (node\<lparr>node_label := name\<rparr>) (st_nodes st)) =
        map fst (st_nodes st)) \<and>
   (map_of (st_nodes st) k = Some n \<longrightarrow>
      map_of (st_nodes (fst (process_connections cs st nl))) k = Some n)"
proof (intro conjI impI)
  assume "generateGraph request w = (Inr g, w')"
  then obtain st2 new
    where "g = \<lparr>gd_nodes = map snd (own_entries (st_nodes st2)), gd_edges = st_edges st2\<rparr>"
      and "nodes_ok (st_nodes st2)" and "edges_ok st2" and "fetchLog w' = fetchLog w @ new"
      and "\<forall>bc \<in> set new. \<forall>c \<in> set (snd bc). connection_edge_id c \<in> st_edgeIds st2"
    by (rule generateGraph_invariants)
  with nodes_ok_values [of "st_nodes st2"] show "distinct (map node_id (gd_nodes g))"
    by simp
next
  assume a: "fst (getWikidataId name w) = Inr (Some qid) \<and> qid \<noteq> [] \<and>
             map_of (st_nodes st) qid = Some node"
  then show "resolve_names (name # names) st w =
        resolve_names names
          (st\<lparr>st_nodes := AList.update qid (node\<lparr>node_label := name\<rparr>) (st_nodes st)\<rparr>)
          (snd (getWikidataId name w))"
    by (cases "getWikidataId name w") simp
  from a have "qid \<in> fst ` set (st_nodes st)"
    by (auto dest!: map_of_SomeD intro: rev_image_eqI)
  then show "map fst (AList.update qid (node\<lparr>node_label := name\<rparr>) (st_nodes st)) =
             map fst (st_nodes st)"
    by (simp add: update_keys)
next
  assume "map_of (st_nodes st) k = Some n"
  then show "map_of (st_nodes (fst (process_connections cs st nl))) k = Some n"
    by (rule process_connections_keeps_known)
qed

theorem generateGraph_nodes_unique_witness:
  "distinct (map node_id [seed_node, human_node]) \<and>
   fst (resolve_names [''Douglas Adams''] (process_qids [''Q42''] initial_state) named_world) =
     Inr ((process_qids [''Q42''] initial_state)
            \<lparr>st_nodes := [(''Q42'', seed_node\<lparr>node_label := ''Douglas Adams''\<rparr>)]\<rparr>) \<and>
   map_of (st_nodes (fst (process_connections [has_instance]
                            (process_qids [''Q42''] initial_state) []))) ''Q42'' = Some seed_node"
proof -
  define g where "g = \<lparr>gd_nodes = [seed_node, human_node],
                        gd_edges = [instance_edge, has_instance_edge]\<rparr>"
  define st where "st = process_qids [''Q42''] initial_state"
  have "fst (generateGraph two_layer_request relabel_world) = Inr g"
    unfolding g_def by code_simp
  then have run: "generateGraph two_layer_request relabel_world =
                  (Inr g, snd (generateGraph two_layer_request relabel_world))"
    by (metis prod.collapse)
  have known: "map_of (st_nodes st) ''Q42'' = Some seed_node"
    unfolding st_def by code_simp
  have resolved: "fst (getWikidataId ''Douglas Adams'' named_world) = Inr (Some ''Q42'')"
    by code_simp
  have upd: "AList.update ''Q42'' (seed_node\<lparr>node_label := ''Douglas Adams''\<rparr>) (st_nodes st) =
             [(''Q42'', seed_node\<lparr>node_label := ''Douglas Adams''\<rparr>)]"
    unfolding st_def by code_simp
  note t1 = generateGraph_nodes_unique
    [where request = two_layer_request and w = relabel_world and g = g
       and w' = "snd (generateGraph two_layer_request relabel_world)"]
  note t2 = generateGraph_nodes_unique
    [where name = "''Douglas Adams''" and w = named_world and qid = "''Q42''" and st = st
       and node = seed_node and names = "[]"]
  note t3 = generateGraph_nodes_unique
    [where st = st and k = "''Q42''" and n = seed_node and cs = "[has_instance]" and nl = "[]"]
  from t1 [THEN conjunct1, THEN mp, OF run]
  have c1: "distinct (map node_id [seed_node, human_node])"
    by (simp add: g_def)
  from resolved known have h2: "fst (getWikidataId ''Douglas Adams'' named_world) = Inr (Some ''Q42'') \<and>
      ''Q42'' \<noteq> [] \<and> map_of (st_nodes st) ''Q42'' = Some seed_node"
    by simp
  from t2 [THEN conjunct2, THEN conjunct1, THEN mp, OF h2, THEN conjunct1] upd
  have c2: "fst (resolve_names [''Douglas Adams''] st named_world) =
            Inr (st\<lparr>st_nodes := [(''Q42'', seed_node\<lparr>node_label := ''Douglas Adams''\<rparr>)]\<rparr>)"
    by simp
  from t3 [THEN conjunct2, THEN conjunct2, THEN mp, OF known]
  have c3: "map_of (st_nodes (fst (process_connections [has_instance] st []))) ''Q42'' =
            Some seed_node" .
  from c1 c2 c3 show ?thesis
    unfolding st_def by (intro conjI)
qed


section \<open>Shortest paths\<close>

declare bfs.simps [simp del]

subsection \<open>The adjacency structure\<close>

lemma neighbors_of_update:
  "neighbors_of (AList.update k v adj) u = (if u = k then v else neighbors_of adj u)"
  by (simp add: neighbors_of_def update_conv')

lemma map_of_update_None:
  "(map_of (AList.update k v adj) u = None) = (u \<noteq> k \<and> map_of adj u = None)"
  by (simp add: update_conv')

lemma neighbors_of_None: "map_of adj u = None \<Longrightarrow> neighbors_of adj u = []"
  by (simp add: neighbors_of_def)

lemma neighbors_add_edge:
  "set (neighbors_of (add_edge adj e) u) =
     set (neighbors_of adj u) \<union>
     (if u = edge_from e then {(edge_to e, edge_id e)} else {}) \<union>
     (if u = edge_to e then {(edge_from e, edge_id e)} else {})"
  by (auto simp: add_edge_def Let_def neighbors_of_update neighbors_of_None update_conv'
           split: if_splits)

lemma has_add_edge:
  "(map_of (add_edge adj e) u = None) =
     (map_of adj u = None \<and> u \<noteq> edge_from e \<and> u \<noteq> edge_to e)"
  by (auto simp: add_edge_def Let_def map_of_update_None)

lemma neighbors_build:
  "set (neighbors_of (foldl add_edge adj es) u) =
     set (neighbors_of adj u) \<union> {(v, i). joined es u v i}"
proof (induction es arbitrary: adj)
  case Nil
  show ?case by (simp add: joined_def)
next
  case (Cons e es)
  have "{(v, i). joined (e # es) u v i} =
        (if u = edge_from e then {(edge_to e, edge_id e)} else {}) \<union>
        (if u = edge_to e then {(edge_from e, edge_id e)} else {}) \<union>
        {(v, i). joined es u v i}"
    by (auto simp: joined_def)
  with Cons.IH [of "add_edge adj e"] show ?case
    by (simp add: neighbors_add_edge Un_assoc)
qed

lemma has_build:
  "(map_of (foldl add_edge adj es) u = None) = (map_of adj u = None \<and> \<not> occurs es u)"
proof (induction es arbitrary: adj)
  case Nil
  show ?case by (simp add: occurs_def)
next
  case (Cons e es)
  have "occurs (e # es) u = (u = edge_from e \<or> u = edge_to e \<or> occurs es u)"
    by (auto simp: occurs_def)
  with Cons.IH [of "add_edge adj e"] show ?case
    by (auto simp: has_add_edge)
qed

lemma adj_ok_build: "adj_ok es (foldl add_edge [] es)"
  using neighbors_build [of "[]" es]
  by (auto simp: adj_ok_def neighbors_of_def)

subsection \<open>Walks\<close>

lemma walk_reach:
  "is_walk es ns \<Longrightarrow> reach es (hd ns) (length ns - 1) (last ns)"
proof (induction ns rule: rev_induct)
  case Nil
  then show ?case by (simp add: is_walk_def)
next
  case (snoc x ns)
  show ?case
  proof (cases "ns = []")
    case True
    then show ?thesis by simp
  next
    case False
    have "is_walk es ns"
      unfolding is_walk_def
    proof (intro conjI allI impI)
      show "ns \<noteq> []" by (rule False)
    next
      fix k
      assume k: "Suc k < length ns"
      with snoc.prems have "\<exists>i. joined es ((ns @ [x]) ! k) ((ns @ [x]) ! Suc k) i"
        by (simp add: is_walk_def)
      with k show "\<exists>i. joined es (ns ! k) (ns ! Suc k) i"
        by (simp add: nth_append)
    qed
    then have r: "reach es (hd ns) (length ns - 1) (last ns)"
      by (rule snoc.IH)
    from False have "Suc (length ns - 1) < length (ns @ [x])"
      by simp
    with snoc.prems
    have "\<exists>i. joined es ((ns @ [x]) ! (length ns - 1)) ((ns @ [x]) ! Suc (length ns - 1)) i"
      unfolding is_walk_def by blast
    with False obtain i where "joined es (last ns) x i"
      by (auto simp: nth_append last_conv_nth)
    with r have "reach es (hd ns) (Suc (length ns - 1)) x"
      by auto
    with False show ?thesis
      by simp
  qed
qed

lemma path_ok_snoc:
  "path_ok es xs is \<Longrightarrow> joined es (last xs) v i \<Longrightarrow> path_ok es (xs @ [v]) (is @ [i])"
  by (induction es xs "is" rule: path_ok.induct) auto

lemma back_path_rev:
  "back_path es v ns is \<Longrightarrow> path_ok es (rev (v # ns)) (rev is)"
proof (induction es v ns "is" rule: back_path.induct)
  case (2 es v u ns i "is")
  then have "path_ok es (rev (u # ns)) (rev is)" and "joined es u v i"
    by simp_all
  then have "path_ok es (rev (u # ns) @ [v]) (rev is @ [i])"
    by (intro path_ok_snoc) simp_all
  then show ?case by simp
qed simp_all

lemma path_ok_nth:
  "path_ok es ns is \<Longrightarrow>
   length ns = Suc (length is) \<and>
   (\<forall>k < length is. joined es (ns ! k) (ns ! Suc k) (is ! k))"
proof (induction es ns "is" rule: path_ok.induct)
  case (2 es u v ns i "is")
  then have j: "joined es u v i" and len: "length (v # ns) = Suc (length is)"
    and rest: "\<forall>k < length is. joined es ((v # ns) ! k) ((v # ns) ! Suc k) (is ! k)"
    by simp_all
  have "\<forall>k < length (i # is). joined es ((u # v # ns) ! k) ((u # v # ns) ! Suc k) ((i # is) ! k)"
  proof (intro allI impI)
    fix k
    assume "k < length (i # is)"
    with j rest show "joined es ((u # v # ns) ! k) ((u # v # ns) ! Suc k) ((i # is) ! k)"
      by (cases k) simp_all
  qed
  with len show ?case by simp
qed simp_all

lemma path_ok_walk: "path_ok es ns is \<Longrightarrow> is_walk es ns"
proof -
  assume p: "path_ok es ns is"
  from path_ok_nth [OF p] have "ns \<noteq> []" and "length ns = Suc (length is)"
    and "\<forall>k < length is. joined es (ns ! k) (ns ! Suc k) (is ! k)"
    by auto
  then show ?thesis
    unfolding is_walk_def by auto
qed

subsection \<open>Reconstruction along the parent pointers\<close>

lemma walk_parents_tree:
  assumes t: "tree_ok es s l visited parent"
  shows "v \<in> visited \<Longrightarrow>
    \<exists>ns is. walk_parents parent v an ae = Some (an @ ns, ae @ is) \<and> length is = l v \<and>
            back_path es v ns is \<and> last (v # ns) = s"
proof (induction "l v" arbitrary: v an ae)
  case 0
  have "v = s"
  proof (rule ccontr)
    assume "v \<noteq> s"
    with t "0.prems" obtain u where "l v = Suc (l u)"
      unfolding tree_ok_def by blast
    with "0.hyps" show False by simp
  qed
  moreover from t have "parent s = None"
    by (simp add: tree_ok_def)
  ultimately have "walk_parents parent v an ae = Some (an, ae)"
    by (subst walk_parents.simps) simp
  with \<open>v = s\<close> "0.hyps" show ?case
    by simp
next
  case (Suc n)
  from t have "l s = 0"
    by (simp add: tree_ok_def)
  with Suc.hyps(2) have "v \<noteq> s"
    by auto
  with t Suc.prems obtain u i
    where p: "parent v = Some (u, i)" and u: "u \<in> visited" and j: "joined es u v i"
      and lv: "l v = Suc (l u)"
    unfolding tree_ok_def by blast
  from lv Suc.hyps(2) have "n = l u"
    by simp
  from Suc.hyps(1) [OF this u, of "an @ [u]" "ae @ [i]"] obtain ns "is"
    where w: "walk_parents parent u (an @ [u]) (ae @ [i]) = Some ((an @ [u]) @ ns, (ae @ [i]) @ is)"
      and len: "length is = l u" and b: "back_path es u ns is" and e: "last (u # ns) = s"
    by blast
  from p w have "walk_parents parent v an ae = Some (an @ (u # ns), ae @ (i # is))"
    by (subst walk_parents.simps) simp
  moreover from len lv have "length (i # is) = l v"
    by simp
  moreover from j b have "back_path es v (u # ns) (i # is)"
    by simp
  moreover from e have "last (v # u # ns) = s"
    by simp
  ultimately show ?case
    by blast
qed

lemma reconstruct_tree:
  assumes t: "tree_ok es s l visited parent" and e: "e \<in> visited"
  shows "\<exists>p. reconstruct parent e = Some p \<and> path_result es s e p"
proof -
  from walk_parents_tree [OF t e, of "[e]" "[]"] obtain ns "is"
    where w: "walk_parents parent e [e] [] = Some (e # ns, is)" and len: "length is = l e"
      and b: "back_path es e ns is" and la: "last (e # ns) = s"
    by auto
  let ?p = "\<lparr>nodeIds = rev (e # ns), edgeIds = rev is\<rparr>"
  from w have r: "reconstruct parent e = Some ?p"
    by (simp add: reconstruct_def)
  have "hd (rev (e # ns)) = last (e # ns)"
    by (rule hd_rev)
  with la have "hd (rev (e # ns)) = s"
    by (simp only:)
  moreover have "last (rev (e # ns)) = e"
    by simp
  moreover from b have "path_ok es (rev (e # ns)) (rev is)"
    by (rule back_path_rev)
  moreover from t e len have "\<forall>n. reach es s n e \<longrightarrow> length (rev is) \<le> n"
    by (simp add: tree_ok_def)
  ultimately have "path_result es s e ?p"
    by (simp add: path_result_def)
  with r show ?thesis
    by blast
qed

subsection \<open>The inner loop keeps the invariant\<close>

lemma tree_ok_extend:
  assumes t: "tree_ok es s l visited parent"
    and c: "c \<in> visited" and w: "w \<notin> visited" and j: "joined es c w i"
    and near: "\<forall>v n. reach es s n v \<and> n \<le> l c \<longrightarrow> v \<in> visited"
  shows "tree_ok es s (l(w := Suc (l c))) (insert w visited) (parent(w \<mapsto> (c, i)))"
proof -
  from t have s: "s \<in> visited" "l s = 0" "parent s = None"
    and tree: "\<forall>v \<in> visited. v \<noteq> s \<longrightarrow>
         (\<exists>u i. parent v = Some (u, i) \<and> u \<in> visited \<and> joined es u v i \<and> l v = Suc (l u))"
    and low: "\<forall>v \<in> visited. \<forall>n. reach es s n v \<longrightarrow> l v \<le> n"
    by (simp_all add: tree_ok_def)
  from s w have ws: "w \<noteq> s" by auto
  from c w have wc: "w \<noteq> c" by auto
  let ?l = "l(w := Suc (l c))" and ?p = "parent(w \<mapsto> (c, i))"
  have "\<forall>v \<in> insert w visited. v \<noteq> s \<longrightarrow>
         (\<exists>u i. ?p v = Some (u, i) \<and> u \<in> insert w visited \<and> joined es u v i \<and> ?l v = Suc (?l u))"
  proof (intro ballI impI)
    fix v
    assume v: "v \<in> insert w visited" and vs: "v \<noteq> s"
    show "\<exists>u i. ?p v = Some (u, i) \<and> u \<in> insert w visited \<and> joined es u v i \<and> ?l v = Suc (?l u)"
    proof (cases "v = w")
      case True
      with c j wc show ?thesis by auto
    next
      case False
      with v have "v \<in> visited" by simp
      with tree vs obtain u i0
        where "parent v = Some (u, i0)" "u \<in> visited" "joined es u v i0" "l v = Suc (l u)"
        by blast
      moreover with w have "u \<noteq> w" by auto
      ultimately show ?thesis
        using False by auto
    qed
  qed
  moreover have "\<forall>v \<in> insert w visited. \<forall>n. reach es s n v \<longrightarrow> ?l v \<le> n"
  proof (intro ballI allI impI)
    fix v n
    assume v: "v \<in> insert w visited" and r: "reach es s n v"
    show "?l v \<le> n"
    proof (cases "v = w")
      case True
      have "\<not> n \<le> l c"
        using near r w True by blast
      with True show ?thesis by simp
    next
      case False
      with v low r show ?thesis by simp
    qed
  qed
  ultimately show ?thesis
    using s ws by (simp add: tree_ok_def)
qed

lemma scan_neighbors_inv:
  assumes a: "adj_ok es adj"
  shows "scan_inv es adj s e l c rest visited parent queue \<Longrightarrow>
     (case scan_neighbors e c rest visited parent queue of
        Inl r \<Rightarrow> (\<exists>p. r = Some p \<and> path_result es s e p)
      | Inr (visited', parent', queue') \<Rightarrow>
          (\<exists>l'. scan_inv es adj s e l' c [] visited' parent' queue'))"
proof (induction rest arbitrary: l visited parent queue)
  case Nil
  then show ?case
    by auto
next
  case (Cons wi rest)
  obtain w i where wi: "wi = (w, i)"
    by (cases wi)
  from Cons.prems have t: "tree_ok es s l visited parent" and e: "e \<notin> visited"
    and c: "c \<in> visited" and q: "set queue \<subseteq> visited" and so: "sorted (map l queue)"
    and range: "\<forall>x \<in> set queue. l c \<le> l x \<and> l x \<le> Suc (l c)"
    and black: "\<forall>v \<in> visited - set queue - {c}. \<forall>wi \<in> set (neighbors_of adj v). fst wi \<in> visited"
    and todo: "\<forall>x \<in> set (neighbors_of adj c). x \<in> set (wi # rest) \<or> fst x \<in> visited"
    and near: "\<forall>v n. reach es s n v \<and> n \<le> l c \<longrightarrow> v \<in> visited"
    and sub: "set (wi # rest) \<subseteq> set (neighbors_of adj c)"
    by (simp_all add: scan_inv_def)
  show ?case
  proof (cases "w \<in> visited")
    case True
    from todo wi True have "\<forall>x \<in> set (neighbors_of adj c). x \<in> set rest \<or> fst x \<in> visited"
      by auto
    with t e c q so range black near sub
    have "scan_inv es adj s e l c rest visited parent queue"
      by (simp add: scan_inv_def)
    then have "case scan_neighbors e c rest visited parent queue of
        Inl r \<Rightarrow> (\<exists>p. r = Some p \<and> path_result es s e p)
      | Inr (visited', parent', queue') \<Rightarrow>
          (\<exists>l'. scan_inv es adj s e l' c [] visited' parent' queue')"
      by (rule Cons.IH)
    moreover from True
    have "scan_neighbors e c (wi # rest) visited parent queue =
          scan_neighbors e c rest visited parent queue"
      by (simp add: wi)
    ultimately show ?thesis
      by (simp only:)
  next
    case False
    from sub wi have "(w, i) \<in> set (neighbors_of adj c)"
      by simp
    with a have j: "joined es c w i"
      by (simp add: adj_ok_def)
    let ?l = "l(w := Suc (l c))" and ?v = "insert w visited" and ?p = "parent(w \<mapsto> (c, i))"
    have t': "tree_ok es s ?l ?v ?p"
      using t c False j near by (rule tree_ok_extend)
    show ?thesis
    proof (cases "w = e")
      case True
      then have "e \<in> ?v" by simp
      from reconstruct_tree [OF t' this]
      have "\<exists>p. reconstruct ?p e = Some p \<and> path_result es s e p" .
      moreover from True False
      have "scan_neighbors e c (wi # rest) visited parent queue = Inl (reconstruct ?p e)"
        by (simp add: wi Let_def)
      ultimately show ?thesis
        by (simp only: sum.case)
    next
      case ne: False
      from c False have wc: "w \<noteq> c" by auto
      from q False have wq: "w \<notin> set queue" by auto
      then have same: "map ?l queue = map l queue"
        by (induction queue) auto
      have so': "sorted (map ?l (queue @ [w]))"
        using so range wq by (simp add: same sorted_append)
      have range': "\<forall>x \<in> set (queue @ [w]). ?l c \<le> ?l x \<and> ?l x \<le> Suc (?l c)"
        using range wc wq by auto
      have black': "\<forall>v \<in> ?v - set (queue @ [w]) - {c}.
                      \<forall>x \<in> set (neighbors_of adj v). fst x \<in> ?v"
        using black by auto
      have todo': "\<forall>x \<in> set (neighbors_of adj c). x \<in> set rest \<or> fst x \<in> ?v"
        using todo wi by auto
      have near': "\<forall>v n. reach es s n v \<and> n \<le> ?l c \<longrightarrow> v \<in> ?v"
        using near wc by auto
      have "scan_inv es adj s e ?l c rest ?v ?p (queue @ [w])"
        unfolding scan_inv_def
        using t' e ne c q so' range' black' todo' near' sub by auto
      then have "case scan_neighbors e c rest ?v ?p (queue @ [w]) of
          Inl r \<Rightarrow> (\<exists>p. r = Some p \<and> path_result es s e p)
        | Inr (visited', parent', queue') \<Rightarrow>
            (\<exists>l'. scan_inv es adj s e l' c [] visited' parent' queue')"
        by (rule Cons.IH)
      moreover from False ne
      have "scan_neighbors e c (wi # rest) visited parent queue =
            scan_neighbors e c rest ?v ?p (queue @ [w])"
        by (simp add: wi Let_def)
      ultimately show ?thesis
        by (simp only:)
    qed
  qed
qed

subsection \<open>The outer loop\<close>

lemma sorted_hd_least: "sorted (map l xs) \<Longrightarrow> x \<in> set xs \<Longrightarrow> l (hd xs) \<le> l x"
  by (cases xs) auto

lemma outer_to_scan:
  assumes "outer_inv es adj s e l visited parent (c # rest)"
  shows "scan_inv es adj s e l c (neighbors_of adj c) visited parent rest"
  using assms unfolding outer_inv_def scan_inv_def
  by auto

lemma scan_to_outer:
  assumes a: "adj_ok es adj" and sc: "scan_inv es adj s e l c [] visited parent queue"
  shows "outer_inv es adj s e l visited parent queue"
proof -
  from sc have t: "tree_ok es s l visited parent" and e: "e \<notin> visited"
    and c: "c \<in> visited" and q: "set queue \<subseteq> visited" and so: "sorted (map l queue)"
    and range: "\<forall>x \<in> set queue. l c \<le> l x \<and> l x \<le> Suc (l c)"
    and black: "\<forall>v \<in> visited - set queue - {c}. \<forall>wi \<in> set (neighbors_of adj v). fst wi \<in> visited"
    and finished: "\<forall>x \<in> set (neighbors_of adj c). fst x \<in> visited"
    and near: "\<forall>v n. reach es s n v \<and> n \<le> l c \<longrightarrow> v \<in> visited"
    by (simp_all add: scan_inv_def)
  from t have low: "\<forall>v \<in> visited. \<forall>n. reach es s n v \<longrightarrow> l v \<le> n"
    by (simp add: tree_ok_def)
  have span: "\<forall>x \<in> set queue. l x \<le> Suc (l (hd queue))"
  proof
    fix x
    assume x: "x \<in> set queue"
    then have "hd queue \<in> set queue"
      by (cases queue) auto
    with range x show "l x \<le> Suc (l (hd queue))"
      by (meson le_trans Suc_le_mono)
  qed
  have black': "\<forall>v \<in> visited - set queue. \<forall>x \<in> set (neighbors_of adj v). fst x \<in> visited"
    using black finished by blast
  have near': "queue \<noteq> [] \<longrightarrow> (\<forall>v n. reach es s n v \<and> n \<le> l (hd queue) \<longrightarrow> v \<in> visited)"
  proof (intro impI allI)
    fix v n
    assume ne: "queue \<noteq> []" and r: "reach es s n v \<and> n \<le> l (hd queue)"
    from ne have hq: "hd queue \<in> set queue"
      by (cases queue) auto
    show "v \<in> visited"
    proof (cases "n \<le> l c")
      case True
      with near r show ?thesis by blast
    next
      case False
      with r range hq have n: "n = Suc (l c)" and lh: "l (hd queue) = Suc (l c)"
        by (auto simp: le_Suc_eq)
      with r obtain u i where ru: "reach es s (l c) u" and j: "joined es u v i"
        by auto
      from near ru have uv: "u \<in> visited"
        by blast
      with low ru have "l u \<le> l c"
        by blast
      moreover have "\<forall>x \<in> set queue. Suc (l c) \<le> l x"
        using sorted_hd_least [OF so] lh by auto
      ultimately have "u \<notin> set queue"
        by auto
      with uv black' have "\<forall>x \<in> set (neighbors_of adj u). fst x \<in> visited"
        by blast
      moreover from a j have "(v, i) \<in> set (neighbors_of adj u)"
        by (simp add: adj_ok_def)
      ultimately show ?thesis
        by auto
    qed
  qed
  from t e q so span black' near' show ?thesis
    by (simp add: outer_inv_def)
qed

lemma bfs_correct:
  "adj_ok es adj \<Longrightarrow> outer_inv es adj s e l visited parent queue \<Longrightarrow>
     \<exists>r. bfs adj e visited parent queue = Some r \<and> (\<forall>p. r = Some p \<longrightarrow> path_result es s e p)"
proof (induction adj e visited parent queue arbitrary: l rule: bfs.induct)
  case (1 adj e visited parent queue)
  note a = "1.prems"(1)
  show ?case
  proof (cases queue)
    case Nil
    then show ?thesis
      by (subst bfs.simps) simp
  next
    case (Cons c rest)
    with "1.prems"(2) have "scan_inv es adj s e l c (neighbors_of adj c) visited parent rest"
      by (simp add: outer_to_scan)
    note sc = scan_neighbors_inv [OF a this]
    show ?thesis
    proof (cases "scan_neighbors e c (neighbors_of adj c) visited parent rest")
      case (Inl r)
      with sc obtain p where "r = Some p" "path_result es s e p"
        by auto
      with Inl Cons show ?thesis
        by (subst bfs.simps) simp
    next
      case (Inr b)
      obtain v1 p1 q1 where b: "b = (v1, p1, q1)"
        by (cases b)
      with sc Inr obtain l' where "scan_inv es adj s e l' c [] v1 p1 q1"
        by auto
      with a have o: "outer_inv es adj s e l' v1 p1 q1"
        by (rule scan_to_outer)
      from b have b1: "(v1, (p1, q1)) = b" and b2: "(p1, q1) = (p1, q1)"
        by simp_all
      from "1.IH" [OF Cons Inr b1 b2 a o]
      have "\<exists>r. bfs adj e v1 p1 q1 = Some r \<and> (\<forall>p. r = Some p \<longrightarrow> path_result es s e p)" .
      moreover from Inr Cons b
      have "bfs adj e visited parent queue = bfs adj e v1 p1 q1"
        by (subst bfs.simps) simp
      ultimately show ?thesis
        by (simp only:)
    qed
  qed
qed

subsection \<open>\<open>findShortestPath\<close>\<close>

lemma outer_inv_initial:
  assumes "s \<noteq> e"
  shows "outer_inv es adj s e (\<lambda>v. 0) {s} Map.empty [s]"
  using assms by (auto simp: outer_inv_def tree_ok_def)

lemma findShortestPath_result:
  assumes ne: "startId \<noteq> endId"
  shows "\<exists>r. findShortestPath es startId endId = Some r \<and>
           (\<forall>p. r = Some p \<longrightarrow> path_result es startId endId p) \<and>
           (\<not> occurs es startId \<or> \<not> occurs es endId \<longrightarrow> r = None)"
proof (cases "occurs es startId \<and> occurs es endId")
  case False
  then have "map_of (foldl add_edge [] es) startId = None \<or>
             map_of (foldl add_edge [] es) endId = None"
    by (auto simp: has_build)
  with ne have "findShortestPath es startId endId = Some None"
    by (simp add: findShortestPath_def Let_def)
  then show ?thesis
    by simp
next
  case True
  then have "\<not> (map_of (foldl add_edge [] es) startId = None \<or>
                map_of (foldl add_edge [] es) endId = None)"
    by (simp add: has_build)
  with ne have "findShortestPath es startId endId =
                bfs (foldl add_edge [] es) endId {startId} Map.empty [startId]"
    by (auto simp: findShortestPath_def Let_def)
  with bfs_correct [OF adj_ok_build outer_inv_initial [OF ne], of es] True show ?thesis
    by simp
qed

lemma path_result_connected: "path_result es s e p \<Longrightarrow> connected es s e"
  unfolding path_result_def connected_def
  using path_ok_walk by blast

lemma closed_not_connected:
  assumes closed: "\<forall>u \<in> S. \<forall>v i. joined es u v i \<longrightarrow> v \<in> S"
    and s: "s \<in> S" and t: "t \<notin> S"
  shows "\<not> connected es s t"
proof
  assume "connected es s t"
  then obtain ns where "is_walk es ns" "hd ns = s" "last ns = t"
    by (auto simp: connected_def)
  with walk_reach [of es ns] have r: "reach es s (length ns - 1) t"
    by simp
  have "reach es s n v \<Longrightarrow> v \<in> S" for n v
  proof (induction n arbitrary: v)
    case 0
    with s show ?case by simp
  next
    case (Suc n)
    then obtain u i where "reach es s n u" "joined es u v i"
      by auto
    with Suc.IH closed show ?case by blast
  qed
  with r t show False
    by blast
qed

text \<open>
  C1. For distinct \<open>startId\<close> and \<open>endId\<close>, a path returned by \<open>findShortestPath\<close> starts at
  \<open>startId\<close> and ends at \<open>endId\<close>; it has one node more than edge ids, and the k-th edge
  id is the id of an edge of the list that joins the k-th node and the next, in either
  direction; and no walk from \<open>startId\<close> to \<open>endId\<close> in the undirected graph of the list
  has fewer edges.
\<close>

theorem findShortestPath_shortest:
  "startId \<noteq> endId \<Longrightarrow> findShortestPath es startId endId = Some (Some p) \<Longrightarrow>
   hd (nodeIds p) = startId \<and> last (nodeIds p) = endId \<and>
   length (nodeIds p) = Suc (length (edgeIds p)) \<and>
   (\<forall>k < length (edgeIds p). joined es (nodeIds p ! k) (nodeIds p ! Suc k) (edgeIds p ! k)) \<and>
   (\<forall>ns. is_walk es ns \<and> hd ns = startId \<and> last ns = endId \<longrightarrow>
      length (edgeIds p) \<le> length ns - 1)"
proof -
  assume ne: "startId \<noteq> endId" and f: "findShortestPath es startId endId = Some (Some p)"
  from findShortestPath_result [OF ne, of es] f have pr: "path_result es startId endId p"
    by auto
  then have ok: "path_ok es (nodeIds p) (edgeIds p)"
    and short: "\<forall>n. reach es startId n endId \<longrightarrow> length (edgeIds p) \<le> n"
    by (simp_all add: path_result_def)
  have "\<forall>ns. is_walk es ns \<and> hd ns = startId \<and> last ns = endId \<longrightarrow>
          length (edgeIds p) \<le> length ns - 1"
  proof (intro allI impI)
    fix ns
    assume "is_walk es ns \<and> hd ns = startId \<and> last ns = endId"
    with walk_reach [of es ns] have "reach es startId (length ns - 1) endId"
      by auto
    with short show "length (edgeIds p) \<le> length ns - 1"
      by blast
  qed
  with pr path_ok_nth [OF ok] show ?thesis
    by (simp add: path_result_def)
qed

theorem findShortestPath_shortest_witness:
  "findShortestPath square ''A'' ''C'' =
     Some (Some \<lparr>nodeIds = [''A'', ''B'', ''C''], edgeIds = [''1'', ''2'']\<rparr>) \<and>
   joined square ''A'' ''B'' ''1'' \<and> joined square ''B'' ''C'' ''2'' \<and>
   is_walk square [''A'', ''D'', ''C''] \<and>
   length [''1'', ''2''] \<le> length [''A'', ''D'', ''C''] - 1"
proof -
  let ?p = "\<lparr>nodeIds = [''A'', ''B'', ''C''], edgeIds = [''1'', ''2'']\<rparr>"
  have ne: "''A'' \<noteq> ''C''"
    by simp
  have run: "findShortestPath square ''A'' ''C'' = Some (Some ?p)"
    by (simp add: findShortestPath_def square_def plain_edge_def add_edge_def neighbors_of_def
          bfs.simps reconstruct_def walk_parents.simps)
  have walk: "is_walk square [''A'', ''D'', ''C'']"
    by (auto simp: is_walk_def joined_def square_def plain_edge_def less_Suc_eq)
  note t = findShortestPath_shortest [OF ne run]
  from t have all: "k < 2 \<Longrightarrow> joined square (nodeIds ?p ! k) (nodeIds ?p ! Suc k) (edgeIds ?p ! k)"
    for k
    by simp
  from all [of 0] all [of 1]
  have j: "joined square ''A'' ''B'' ''1''" "joined square ''B'' ''C'' ''2''"
    by simp_all
  from t walk have "length (edgeIds ?p) \<le> length [''A'', ''D'', ''C''] - 1"
    by simp
  with run j walk show ?thesis
    by simp
qed

text \<open>
  C4 fails when both ids are the same: the first statement of \<open>findShortestPath\<close> returns
  the one-node path for \<open>startId = endId\<close> before the edge list is looked at, also for an
  id that no edge has.
\<close>

theorem findShortestPath_same_id_counterexample:
  "\<not> occurs [] ''A'' \<and>
   findShortestPath [] ''A'' ''A'' = Some (Some \<lparr>nodeIds = [''A''], edgeIds = []\<rparr>)"
  by (simp add: occurs_def findShortestPath_def)

text \<open>
  C4, for distinct ids. When \<open>startId\<close> and \<open>endId\<close> differ and are not connected in the
  undirected graph of the edge list, or one of them is not an endpoint of any edge,
  \<open>findShortestPath\<close> returns \<open>null\<close>.
\<close>

theorem findShortestPath_absent:
  "startId \<noteq> endId \<Longrightarrow>
   \<not> connected es startId endId \<or> \<not> occurs es startId \<or> \<not> occurs es endId \<Longrightarrow>
   findShortestPath es startId endId = Some None"
proof -
  assume ne: "startId \<noteq> endId"
    and a: "\<not> connected es startId endId \<or> \<not> occurs es startId \<or> \<not> occurs es endId"
  from findShortestPath_result [OF ne, of es] obtain r
    where r: "findShortestPath es startId endId = Some r"
      and p: "\<forall>p. r = Some p \<longrightarrow> path_result es startId endId p"
      and o: "\<not> occurs es startId \<or> \<not> occurs es endId \<longrightarrow> r = None"
    by blast
  have "r = None"
  proof (cases "\<not> occurs es startId \<or> \<not> occurs es endId")
    case True
    with o show ?thesis by simp
  next
    case False
    with a have nc: "\<not> connected es startId endId"
      by blast
    show ?thesis
    proof (cases r)
      case None
      then show ?thesis .
    next
      case (Some path)
      with p have "path_result es startId endId path"
        by simp
      then have "connected es startId endId"
        by (rule path_result_connected)
      with nc show ?thesis by simp
    qed
  qed
  with r show ?thesis by simp
qed

theorem findShortestPath_absent_witness:
  "findShortestPath two_islands ''A'' ''C'' = Some None \<and>
   findShortestPath two_islands ''A'' ''Z'' = Some None"
proof -
  have "\<forall>u \<in> {''A'', ''B''}. \<forall>v i. joined two_islands u v i \<longrightarrow> v \<in> {''A'', ''B''}"
    by (auto simp: joined_def two_islands_def plain_edge_def)
  then have "\<not> connected two_islands ''A'' ''C''"
    by (rule closed_not_connected) simp_all
  then have h1: "\<not> connected two_islands ''A'' ''C'' \<or> \<not> occurs two_islands ''A'' \<or>
                 \<not> occurs two_islands ''C''"
    by simp
  have "\<not> occurs two_islands ''Z''"
    by (simp add: occurs_def two_islands_def plain_edge_def)
  then have h2: "\<not> connected two_islands ''A'' ''Z'' \<or> \<not> occurs two_islands ''A'' \<or>
                 \<not> occurs two_islands ''Z''"
    by simp
  have n1: "''A'' \<noteq> ''C''" and n2: "''A'' \<noteq> ''Z''"
    by simp_all
  from findShortestPath_absent [OF n1 h1] findShortestPath_absent [OF n2 h2]
  show ?thesis
    by (rule conjI)
qed


end
